theory Spec2Isabelle
  imports Main "HOL-Library.Sublist"
begin

section \<open>Values\<close>

text \<open>
  A value of Go's empty interface \<open>any\<close>, as far as \<open>encoding/json\<close> tells values
  apart: \<open>ANil\<close> is the nil interface, \<open>AUnencodable\<close> stands for every value
  \<open>json.Marshal\<close> rejects (a channel, a function, a NaN).
\<close>

datatype any =
    ANil
  | ABool bool
  | AInt int
  | AString string
  | AList "any list"
  | AMap "(string \<times> any) list"
  | AUnencodable

section \<open>Strings\<close>

text \<open>
  A Go string is a sequence of bytes, modelled as \<^typ>\<open>string\<close> (a list of 8-bit
  characters). \<open>input[a:b]\<close> is \<open>slice input a b\<close>.
\<close>

definition dquote :: char where
  "dquote = CHR 0x22"

definition backslash :: char where
  "backslash = CHR 0x5C"

definition slice :: "'a list \<Rightarrow> nat \<Rightarrow> nat \<Rightarrow> 'a list" where
  "slice xs a b = take (b - a) (drop a xs)"

subsection \<open>strings.TrimSpace\<close>

text \<open>
  \<open>strings.TrimSpace\<close> removes leading and trailing white space as Unicode defines it.
  On bytes these are the six ASCII space characters and the UTF-8 encodings of U+0085,
  U+00A0 (two bytes) and of U+1680, U+2000..U+200A, U+2028, U+2029, U+202F, U+205F,
  U+3000 (three bytes). A byte that does not start one of these encodings stops the
  trimming, as the decoder's error rune does.
\<close>

definition asciiSpace :: "char \<Rightarrow> bool" where
  "asciiSpace c \<longleftrightarrow>
     c = CHR 0x09 \<or> c = CHR 0x0A \<or> c = CHR 0x0B \<or> c = CHR 0x0C \<or> c = CHR 0x0D \<or> c = CHR 0x20"

definition space2 :: "char \<Rightarrow> char \<Rightarrow> bool" where
  "space2 a b \<longleftrightarrow> a = CHR 0xC2 \<and> (b = CHR 0x85 \<or> b = CHR 0xA0)"

definition space3 :: "char \<Rightarrow> char \<Rightarrow> char \<Rightarrow> bool" where
  "space3 a b c \<longleftrightarrow>
     (a = CHR 0xE1 \<and> b = CHR 0x9A \<and> c = CHR 0x80) \<or>
     (a = CHR 0xE2 \<and> b = CHR 0x80 \<and>
        ((0x80 \<le> (of_char c :: nat) \<and> (of_char c :: nat) \<le> 0x8A) \<or>
         c = CHR 0xA8 \<or> c = CHR 0xA9 \<or> c = CHR 0xAF)) \<or>
     (a = CHR 0xE2 \<and> b = CHR 0x81 \<and> c = CHR 0x9F) \<or>
     (a = CHR 0xE3 \<and> b = CHR 0x80 \<and> c = CHR 0x80)"

fun TrimLeft :: "string \<Rightarrow> string" where
  "TrimLeft (a # b # c # s) =
     (if asciiSpace a then TrimLeft (b # c # s)
      else if space2 a b then TrimLeft (c # s)
      else if space3 a b c then TrimLeft s
      else a # b # c # s)"
| "TrimLeft [a, b] =
     (if asciiSpace a then TrimLeft [b] else if space2 a b then [] else [a, b])"
| "TrimLeft [a] = (if asciiSpace a then [] else [a])"
| "TrimLeft [] = []"

text \<open>The same scan from the end, on the reversed string: \<open>c\<close> is the last byte.\<close>

fun TrimRightRev :: "string \<Rightarrow> string" where
  "TrimRightRev (c # b # a # s) =
     (if asciiSpace c then TrimRightRev (b # a # s)
      else if space2 b c then TrimRightRev (a # s)
      else if space3 a b c then TrimRightRev s
      else c # b # a # s)"
| "TrimRightRev [c, b] =
     (if asciiSpace c then TrimRightRev [b] else if space2 b c then [] else [c, b])"
| "TrimRightRev [c] = (if asciiSpace c then [] else [c])"
| "TrimRightRev [] = []"

definition TrimRight :: "string \<Rightarrow> string" where
  "TrimRight s = rev (TrimRightRev (rev s))"

definition TrimSpace :: "string \<Rightarrow> string" where
  "TrimSpace s = TrimRight (TrimLeft s)"

text \<open>A string is white space only when it decodes as a sequence of white-space runes.\<close>

fun whitespaceOnly :: "string \<Rightarrow> bool" where
  "whitespaceOnly [] = True"
| "whitespaceOnly (a # s) =
     (if asciiSpace a then whitespaceOnly s
      else case s of
        [] \<Rightarrow> False
      | b # s' \<Rightarrow>
          if space2 a b then whitespaceOnly s'
          else (case s' of [] \<Rightarrow> False | c # s'' \<Rightarrow> space3 a b c \<and> whitespaceOnly s''))"

text \<open>Auxiliary notions for the proofs about trimming.\<close>

definition plainASCII :: "char \<Rightarrow> bool" where
  "plainASCII c \<longleftrightarrow> \<not> asciiSpace c \<and> (of_char c :: nat) < 0x80"

inductive wsRunes :: "string \<Rightarrow> bool" where
  "wsRunes []"
| "asciiSpace a \<Longrightarrow> wsRunes s \<Longrightarrow> wsRunes (a # s)"
| "space2 a b \<Longrightarrow> wsRunes s \<Longrightarrow> wsRunes (a # b # s)"
| "space3 a b c \<Longrightarrow> wsRunes s \<Longrightarrow> wsRunes (a # b # c # s)"

section \<open>Argument normalizer\<close>

text \<open>
  \<open>extractBalancedJSON\<close>: the loop \<open>for index, r := range input\<close>, with the loop
  variables \<open>start\<close>, \<open>depth\<close>, \<open>inString\<close>, \<open>escaped\<close> as arguments. The
  characters compared against are ASCII, and no byte of a multi-byte rune is ASCII, so
  the loop over runes and the loop over bytes take the same branches.
\<close>

fun extractLoop ::
  "string \<Rightarrow> char \<Rightarrow> char \<Rightarrow> string \<Rightarrow> nat \<Rightarrow> int \<Rightarrow> int \<Rightarrow> bool \<Rightarrow> bool \<Rightarrow> string \<times> bool"
where
  "extractLoop input opn cls [] index start depth inString escaped = ('''', False)"
| "extractLoop input opn cls (r # rest) index start depth inString escaped =
     (if inString then
        (if escaped then extractLoop input opn cls rest (index + 1) start depth inString False
         else if r = backslash then
           extractLoop input opn cls rest (index + 1) start depth inString True
         else if r = dquote then
           extractLoop input opn cls rest (index + 1) start depth False escaped
         else extractLoop input opn cls rest (index + 1) start depth inString escaped)
      else if r = dquote then
        extractLoop input opn cls rest (index + 1) start depth True escaped
      else if r = opn then
        extractLoop input opn cls rest (index + 1)
          (if start = - 1 then int index else start) (depth + 1) inString escaped
      else if r = cls then
        (if depth = 0 then
           extractLoop input opn cls rest (index + 1) start depth inString escaped
         else if depth - 1 = 0 \<and> start \<ge> 0 then
           (TrimSpace (slice input (nat start) (index + 1)), True)
         else extractLoop input opn cls rest (index + 1) start (depth - 1) inString escaped)
      else extractLoop input opn cls rest (index + 1) start depth inString escaped)"

definition extractBalancedJSON :: "string \<Rightarrow> char \<Rightarrow> char \<Rightarrow> string \<times> bool" where
  "extractBalancedJSON input opn cls = extractLoop input opn cls input 0 (- 1) 0 False False"

text \<open>
  \<open>NormalizeJSONArguments\<close>. \<open>json.Valid\<close> belongs to the standard library; it is the
  parameter \<open>valid\<close>.
\<close>

definition NormalizeJSONArguments :: "(string \<Rightarrow> bool) \<Rightarrow> string \<Rightarrow> string \<times> bool" where
  "NormalizeJSONArguments valid raw =
     (let trimmed = TrimSpace raw in
      if trimmed = '''' then (''{}'', True)
      else if valid trimmed then (trimmed, True)
      else
        (let (extracted, ok) = extractBalancedJSON trimmed (CHR ''{'') (CHR ''}'') in
         if ok \<and> valid extracted then (extracted, True)
         else
           (let (extracted, ok) = extractBalancedJSON trimmed (CHR ''['') (CHR '']'') in
            if ok \<and> valid extracted then (extracted, True)
            else ('''', False))))"

subsection \<open>The first balanced span, as the specification words it\<close>

text \<open>
  \<open>kinds\<close> scans the text once for string literals: a character outside every literal
  (and not a quote) is structural. It marks a structural opening bracket with \<open>1\<close>, a
  structural closing bracket with \<open>-1\<close> and everything else with \<open>0\<close>. Inside a
  literal a backslash protects the next character.
\<close>

fun kindsFrom :: "char \<Rightarrow> char \<Rightarrow> bool \<Rightarrow> bool \<Rightarrow> string \<Rightarrow> int list" where
  "kindsFrom opn cls inS esc [] = []"
| "kindsFrom opn cls inS esc (r # rest) =
     (if inS then
        (if esc then 0 # kindsFrom opn cls True False rest
         else if r = backslash then 0 # kindsFrom opn cls True True rest
         else if r = dquote then 0 # kindsFrom opn cls False False rest
         else 0 # kindsFrom opn cls True False rest)
      else if r = dquote then 0 # kindsFrom opn cls True False rest
      else (if r = opn then 1 else if r = cls then - 1 else 0) # kindsFrom opn cls False False rest)"

definition kinds :: "char \<Rightarrow> char \<Rightarrow> string \<Rightarrow> int list" where
  "kinds opn cls s = kindsFrom opn cls False False s"

text \<open>
  The first balanced span starts at the first structural opening bracket, at index \<open>a\<close>,
  and ends at the first index \<open>b\<close> from which the structural brackets of \<open>s[a..b]\<close>
  balance (as many closing as opening ones).
\<close>

definition firstBalancedSpan :: "char \<Rightarrow> char \<Rightarrow> string \<Rightarrow> string option" where
  "firstBalancedSpan opn cls s =
     (let ks = kinds opn cls s in
      case find (\<lambda>i. ks ! i = 1) [0..<length s] of
        None \<Rightarrow> None
      | Some a \<Rightarrow>
          (case find (\<lambda>b. sum_list (slice ks a (Suc b)) = 0) [a..<length s] of
             None \<Rightarrow> None
           | Some b \<Rightarrow> Some (slice s a (Suc b))))"

definition normalizeSpec :: "(string \<Rightarrow> bool) \<Rightarrow> string \<Rightarrow> string \<times> bool" where
  "normalizeSpec valid raw =
     (if whitespaceOnly raw then (''{}'', True)
      else if valid (TrimSpace raw) then (TrimSpace raw, True)
      else case firstBalancedSpan (CHR ''{'') (CHR ''}'') (TrimSpace raw) of
        Some span \<Rightarrow>
          if valid span then (span, True)
          else (case firstBalancedSpan (CHR ''['') (CHR '']'') (TrimSpace raw) of
                  Some span' \<Rightarrow> if valid span' then (span', True) else ('''', False)
                | None \<Rightarrow> ('''', False))
      | None \<Rightarrow>
          (case firstBalancedSpan (CHR ''['') (CHR '']'') (TrimSpace raw) of
             Some span' \<Rightarrow> if valid span' then (span', True) else ('''', False)
           | None \<Rightarrow> ('''', False)))"

text \<open>
  Recursive readings of the two searches, used in the proofs: the offset of the first
  \<open>1\<close>, the offset at which a running depth first reaches zero, and both together.
\<close>

fun firstOpen :: "int list \<Rightarrow> nat option" where
  "firstOpen [] = None"
| "firstOpen (x # xs) = (if x = 1 then Some 0 else map_option Suc (firstOpen xs))"

fun firstZero :: "int \<Rightarrow> int list \<Rightarrow> nat option" where
  "firstZero d [] = None"
| "firstZero d (x # xs) = (if d + x = 0 then Some 0 else map_option Suc (firstZero (d + x) xs))"

definition spanIn :: "int list \<Rightarrow> (nat \<times> nat) option" where
  "spanIn ks =
     (case firstOpen ks of
        None \<Rightarrow> None
      | Some j \<Rightarrow> map_option (\<lambda>k. (j, j + k + 1)) (firstZero 1 (drop (Suc j) ks)))"

section \<open>The turn runner\<close>

subsection \<open>Messages (package llm)\<close>

datatype Role = RoleSystem | RoleUser | RoleAssistant | RoleTool

record ToolDefinition =
  DefName :: string
  Description :: string
  Parameters :: "(string \<times> any) list"

record ToolCall =
  ID :: string
  Name :: string
  Arguments :: string

record Message =
  Role :: Role
  Content :: string
  ToolCallID :: string
  ToolCalls :: "ToolCall list"

record CompletionRequest =
  ReqModel :: string
  Messages :: "Message list"
  Tools :: "ToolDefinition list"

record Choice =
  FinishReason :: string
  ChoiceMessage :: Message

record CompletionResponse =
  Choices :: "Choice list"

subsection \<open>RunPrompt\<close>

text \<open>
  The runner talks to three things outside itself: the context (\<open>ctx.Err()\<close>), the
  completion client and the tool executor. They are functions over a state of the world
  \<open>'w\<close>, which the client and the executor may change; the context is read from it, so
  a cancellation may arrive during any call. A nil client or executor is \<open>None\<close>.
  Logging does not influence the control flow and is left out. Counters are Go
  \<open>int\<close>s; they count messages held in memory and stay far from \<open>2^63\<close>, so they are
  modelled as unbounded integers.
\<close>

datatype ctxError = Canceled | DeadlineExceeded

datatype runError =
    MissingLLMClient
  | MissingToolExecutor
  | ContextError ctxError
  | ErrMaxTurnsExceeded int
  | ErrToolCallBudgetExceeded int int int
  | ClientError string
  | NoChoices

record Policy =
  MaxTurns :: int
  MaxToolCalls :: int

type_synonym 'w completeFn = "'w \<Rightarrow> CompletionRequest \<Rightarrow> (string + CompletionResponse) \<times> 'w"

type_synonym 'w executeFn = "'w \<Rightarrow> string \<Rightarrow> ToolCall \<Rightarrow> string \<times> 'w"

record 'w Runner =
  LLMClient :: "'w completeFn option"
  Model :: string
  ToolDefinitions :: "ToolDefinition list"
  ExecuteTool :: "'w executeFn option"
  RunnerPolicy :: Policy
  jsonValid :: "string \<Rightarrow> bool"

text \<open>
  The variables of the loop. \<open>executions\<close> is a ghost variable: the tool calls handed to
  \<open>ExecuteTool\<close> so far, in order.
\<close>

record 'w LoopState =
  messageHistory :: "Message list"
  turnNumber :: int
  toolCallsUsed :: int
  lastAssistantText :: string
  world :: 'w
  executions :: "ToolCall list"

text \<open>What a \<open>return\<close> leaves behind: the two results and the state at that point.\<close>

record 'w Return =
  response :: string
  err :: "runError option"
  final :: "'w LoopState"

definition sanitizeToolCall :: "(string \<Rightarrow> bool) \<Rightarrow> ToolCall \<Rightarrow> ToolCall" where
  "sanitizeToolCall valid toolCall =
     (let (normalizedArguments, ok) = NormalizeJSONArguments valid (Arguments toolCall) in
      if ok then toolCall\<lparr>Arguments := normalizedArguments\<rparr>
      else toolCall\<lparr>Arguments := ''{}''\<rparr>)"

text \<open>The loop over \<open>message.ToolCalls\<close> that fills \<open>assistantMessage\<close>.\<close>

fun pruneToolCalls :: "(string \<Rightarrow> bool) \<Rightarrow> Message \<Rightarrow> Message \<Rightarrow> ToolCall list \<Rightarrow> Message" where
  "pruneToolCalls valid message assistantMessage [] = assistantMessage"
| "pruneToolCalls valid message assistantMessage (toolCall # rest) =
     (let normalizedToolCall = sanitizeToolCall valid toolCall;
          assistantMessage' =
            (if TrimSpace (Content assistantMessage) = '''' \<and> TrimSpace (Content message) \<noteq> ''''
             then assistantMessage\<lparr>Content := Content message\<rparr> else assistantMessage)
      in if TrimSpace (ID normalizedToolCall) = '''' \<or> TrimSpace (Name normalizedToolCall) = ''''
         then pruneToolCalls valid message assistantMessage' rest
         else pruneToolCalls valid message
                (assistantMessage'\<lparr>ToolCalls := ToolCalls assistantMessage' @ [normalizedToolCall]\<rparr>)
                rest)"

definition assistantMessageOf :: "(string \<Rightarrow> bool) \<Rightarrow> Message \<Rightarrow> Message" where
  "assistantMessageOf valid message =
     pruneToolCalls valid message
       \<lparr>Role = RoleAssistant, Content = Content message, ToolCallID = '''', ToolCalls = []\<rparr>
       (ToolCalls message)"

text \<open>The update of \<open>lastAssistantText\<close> after the assistant message is appended.\<close>

definition latestAssistantText :: "string \<Rightarrow> Message \<Rightarrow> Message \<Rightarrow> string" where
  "latestAssistantText previous assistantMessage message =
     (if TrimSpace (Content assistantMessage) \<noteq> '''' then Content assistantMessage
      else if TrimSpace (Content message) \<noteq> '''' then Content message
      else previous)"

text \<open>The loop over \<open>assistantMessage.ToolCalls\<close> that dispatches them.\<close>

fun dispatchToolCalls ::
  "('w \<Rightarrow> ctxError option) \<Rightarrow> 'w executeFn \<Rightarrow> string \<Rightarrow> ToolCall list \<Rightarrow> 'w LoopState \<Rightarrow>
   'w Return + 'w LoopState"
where
  "dispatchToolCalls ctx exec correlationID [] s = Inr s"
| "dispatchToolCalls ctx exec correlationID (toolCall # rest) s =
     (case ctx (world s) of
        Some e \<Rightarrow> Inl \<lparr>response = lastAssistantText s, err = Some (ContextError e), final = s\<rparr>
      | None \<Rightarrow>
          (let (toolResponse, w) = exec (world s) correlationID toolCall in
           dispatchToolCalls ctx exec correlationID rest
             (s\<lparr>world := w,
                executions := executions s @ [toolCall],
                messageHistory := messageHistory s @
                  [\<lparr>Role = RoleTool, Content = toolResponse, ToolCallID = ID toolCall,
                    ToolCalls = []\<rparr>]\<rparr>)))"

text \<open>
  One iteration of the outer \<open>for\<close>: \<open>Inl\<close> is a \<open>return\<close> (the \<open>break\<close> leads to the
  final \<open>return lastAssistantText, nil\<close>), \<open>Inr\<close> the state at the next iteration.
\<close>

definition turn ::
  "('w \<Rightarrow> ctxError option) \<Rightarrow> 'w Runner \<Rightarrow> 'w completeFn \<Rightarrow> 'w executeFn \<Rightarrow> string \<Rightarrow>
   'w LoopState \<Rightarrow> 'w Return + 'w LoopState"
where
  "turn ctx runner complete exec correlationID s =
     (case ctx (world s) of
        Some e \<Rightarrow> Inl \<lparr>response = lastAssistantText s, err = Some (ContextError e), final = s\<rparr>
      | None \<Rightarrow>
          if MaxTurns (RunnerPolicy runner) > 0 \<and> turnNumber s > MaxTurns (RunnerPolicy runner)
          then Inl \<lparr>response = lastAssistantText s,
                    err = Some (ErrMaxTurnsExceeded (MaxTurns (RunnerPolicy runner))), final = s\<rparr>
          else
            (let (resp, w) =
                   complete (world s)
                     \<lparr>ReqModel = Model runner, Messages = messageHistory s,
                      Tools = ToolDefinitions runner\<rparr>;
                 s1 = s\<lparr>world := w\<rparr>
             in case resp of
                  Inl e \<Rightarrow> Inl \<lparr>response = '''', err = Some (ClientError e), final = s1\<rparr>
                | Inr r \<Rightarrow>
                    (case Choices r of
                       [] \<Rightarrow> Inl \<lparr>response = '''', err = Some NoChoices, final = s1\<rparr>
                     | choice # _ \<Rightarrow>
                         (let message = ChoiceMessage choice;
                              assistantMessage = assistantMessageOf (jsonValid runner) message;
                              s2 = s1\<lparr>messageHistory := messageHistory s1 @ [assistantMessage],
                                     lastAssistantText :=
                                       latestAssistantText (lastAssistantText s1)
                                         assistantMessage message\<rparr>;
                              toolCallCount = int (length (ToolCalls assistantMessage))
                          in if FinishReason choice = ''stop'' \<or> toolCallCount = 0
                             then Inl \<lparr>response = lastAssistantText s2, err = None, final = s2\<rparr>
                             else if MaxToolCalls (RunnerPolicy runner) > 0 \<and>
                                     toolCallsUsed s2 + toolCallCount >
                                       MaxToolCalls (RunnerPolicy runner)
                             then Inl \<lparr>response = lastAssistantText s2,
                                       err = Some (ErrToolCallBudgetExceeded
                                                     (MaxToolCalls (RunnerPolicy runner))
                                                     (toolCallsUsed s2) toolCallCount),
                                       final = s2\<rparr>
                             else
                               (case dispatchToolCalls ctx exec correlationID
                                       (ToolCalls assistantMessage) s2 of
                                  Inl ret \<Rightarrow> Inl ret
                                | Inr s3 \<Rightarrow>
                                    Inr (s3\<lparr>toolCallsUsed := toolCallsUsed s3 + toolCallCount,
                                            turnNumber := turnNumber s3 + 1\<rparr>))))))"

text \<open>
  The outer loop. It need not terminate (no turn limit and a model that keeps asking for
  tools), so its result is optional: \<open>None\<close> means that it never returns.
\<close>

partial_function (option) runLoop ::
  "('w \<Rightarrow> ctxError option) \<Rightarrow> 'w Runner \<Rightarrow> 'w completeFn \<Rightarrow> 'w executeFn \<Rightarrow> string \<Rightarrow>
   'w LoopState \<Rightarrow> 'w Return option"
where
  "runLoop ctx runner complete exec correlationID s =
     (case turn ctx runner complete exec correlationID s of
        Inl ret \<Rightarrow> Some ret
      | Inr s' \<Rightarrow> runLoop ctx runner complete exec correlationID s')"

definition RunPrompt ::
  "('w \<Rightarrow> ctxError option) \<Rightarrow> 'w Runner \<Rightarrow> 'w \<Rightarrow> Message list \<Rightarrow> string \<Rightarrow> string \<Rightarrow>
   'w Return option"
where
  "RunPrompt ctx runner w history prompt correlationID =
     (let s0 = \<lparr>messageHistory = history, turnNumber = 1, toolCallsUsed = 0,
                lastAssistantText = '''', world = w, executions = []\<rparr>
      in case LLMClient runner of
           None \<Rightarrow> Some \<lparr>response = '''', err = Some MissingLLMClient, final = s0\<rparr>
         | Some complete \<Rightarrow>
             (case ExecuteTool runner of
                None \<Rightarrow> Some \<lparr>response = '''', err = Some MissingToolExecutor, final = s0\<rparr>
              | Some exec \<Rightarrow>
                  runLoop ctx runner complete exec correlationID
                    (s0\<lparr>messageHistory := history @
                          [\<lparr>Role = RoleUser, Content = prompt, ToolCallID = '''',
                            ToolCalls = []\<rparr>]\<rparr>)))"

text \<open>
  The client of the runner's tests: it answers from a queue of responses and fails when
  the queue is empty. The world is the rest of the queue.
\<close>

definition queuedClient :: "(CompletionResponse list) completeFn" where
  "queuedClient w request =
     (case w of [] \<Rightarrow> (Inl ''no queued response'', []) | r # rest \<Rightarrow> (Inr r, rest))"

definition responseWithText :: "string \<Rightarrow> string \<Rightarrow> CompletionResponse" where
  "responseWithText finishReason content =
     \<lparr>Choices = [\<lparr>FinishReason = finishReason,
                  ChoiceMessage = \<lparr>Role = RoleAssistant, Content = content, ToolCallID = '''',
                                   ToolCalls = []\<rparr>\<rparr>]\<rparr>"

definition responseWithToolCalls :: "string \<Rightarrow> ToolCall list \<Rightarrow> CompletionResponse" where
  "responseWithToolCalls finishReason toolCalls =
     \<lparr>Choices = [\<lparr>FinishReason = finishReason,
                  ChoiceMessage = \<lparr>Role = RoleAssistant, Content = '''', ToolCallID = '''',
                                   ToolCalls = toolCalls\<rparr>\<rparr>]\<rparr>"

definition sampleToolCall :: "string \<Rightarrow> string \<Rightarrow> string \<Rightarrow> ToolCall" where
  "sampleToolCall i n a = \<lparr>ID = i, Name = n, Arguments = a\<rparr>"

definition testRunner :: "Policy \<Rightarrow> (CompletionResponse list) Runner" where
  "testRunner policy =
     \<lparr>LLMClient = Some queuedClient, Model = ''test-model'', ToolDefinitions = [],
      ExecuteTool = Some (\<lambda>w correlationID toolCall. (''{}'', w)),
      RunnerPolicy = policy, jsonValid = (\<lambda>s. s = ''{}'')\<rparr>"

definition neverCancelled :: "'w \<Rightarrow> ctxError option" where
  "neverCancelled w = None"

declare runLoop.simps [code]

text \<open>
  \<open>reaches T s0 s\<close>: the loop with body \<open>T\<close>, started in \<open>s0\<close>, arrives at the top of an
  iteration in state \<open>s\<close>.
\<close>

inductive reaches :: "('s \<Rightarrow> 'r + 's) \<Rightarrow> 's \<Rightarrow> 's \<Rightarrow> bool" for T :: "'s \<Rightarrow> 'r + 's" and s0 :: 's where
  reaches_start: "reaches T s0 s0"
| reaches_step: "reaches T s0 s \<Longrightarrow> T s = Inr s' \<Longrightarrow> reaches T s0 s'"

text \<open>The state in which \<open>RunPrompt\<close> enters its loop.\<close>

definition entryState :: "'w \<Rightarrow> Message list \<Rightarrow> string \<Rightarrow> 'w LoopState" where
  "entryState w history prompt =
     \<lparr>messageHistory = history @
        [\<lparr>Role = RoleUser, Content = prompt, ToolCallID = '''', ToolCalls = []\<rparr>],
      turnNumber = 1, toolCallsUsed = 0, lastAssistantText = '''', world = w, executions = []\<rparr>"

text \<open>
  What dispatching a list of tool calls appends when the context stays live: one tool
  message per call, in order, each built from the executor's response.
\<close>

fun toolMessages :: "'w executeFn \<Rightarrow> string \<Rightarrow> ToolCall list \<Rightarrow> 'w \<Rightarrow> Message list \<times> 'w" where
  "toolMessages exec correlationID [] w = ([], w)"
| "toolMessages exec correlationID (toolCall # rest) w =
     (let (toolResponse, w1) = exec w correlationID toolCall;
          (messages, w2) = toolMessages exec correlationID rest w1
      in (\<lparr>Role = RoleTool, Content = toolResponse, ToolCallID = ID toolCall, ToolCalls = []\<rparr>
            # messages, w2))"

definition twoCalls :: "ToolCall list" where
  "twoCalls =
     [sampleToolCall ''call_1'' ''ListDir'' ''{}'', sampleToolCall ''call_2'' ''Read'' ''{}'']"

text \<open>A tool call the runner keeps: its id and its name are not blank.\<close>

definition wellFormed :: "ToolCall \<Rightarrow> bool" where
  "wellFormed toolCall \<longleftrightarrow> TrimSpace (ID toolCall) \<noteq> '''' \<and> TrimSpace (Name toolCall) \<noteq> ''''"

definition oneCall :: "ToolCall list" where
  "oneCall = [sampleToolCall ''call_1'' ''ListDir'' ''{}'']"

definition userMessage :: "string \<Rightarrow> Message" where
  "userMessage prompt = \<lparr>Role = RoleUser, Content = prompt, ToolCallID = '''', ToolCalls = []\<rparr>"

text \<open>The state of the test with one tool call, after its first turn.\<close>

definition afterFirstTurn :: "(CompletionResponse list) LoopState" where
  "afterFirstTurn =
     \<lparr>messageHistory =
        [userMessage ''turn-limit'',
         \<lparr>Role = RoleAssistant, Content = '''', ToolCallID = '''', ToolCalls = oneCall\<rparr>,
         \<lparr>Role = RoleTool, Content = ''{}'', ToolCallID = ''call_1'', ToolCalls = []\<rparr>],
      turnNumber = 2, toolCallsUsed = 1, lastAssistantText = '''', world = [],
      executions = oneCall\<rparr>"

section \<open>The tool boundary\<close>

subsection \<open>JSON values and encoding/json\<close>

text \<open>
  The text \<open>json.Marshal\<close> produces is modelled by the JSON value it denotes; an object
  keeps its members in the order written. \<open>marshalAny\<close> is \<open>None\<close> where \<open>json.Marshal\<close>
  returns an error. (Map keys are written in sorted order by the library; the order of
  members plays no role below and is left as given.)
\<close>

datatype json =
    JNull
  | JBool bool
  | JNumber int
  | JString string
  | JArray "json list"
  | JObject "(string \<times> json) list"

fun marshalAny :: "any \<Rightarrow> json option" where
  "marshalAny ANil = Some JNull"
| "marshalAny (ABool b) = Some (JBool b)"
| "marshalAny (AInt i) = Some (JNumber i)"
| "marshalAny (AString s) = Some (JString s)"
| "marshalAny (AList xs) = map_option JArray (those (map marshalAny xs))"
| "marshalAny (AMap kvs) =
     map_option JObject (those (map (\<lambda>(k, v). map_option (Pair k) (marshalAny v)) kvs))"
| "marshalAny AUnencodable = None"

definition member :: "string \<Rightarrow> json \<Rightarrow> json option" where
  "member k j = (case j of JObject kvs \<Rightarrow> map_of kvs k | _ \<Rightarrow> None)"

subsection \<open>The response envelope\<close>

record ResponseError =
  Message :: string

record ResponseEnvelope =
  OK :: bool
  Data :: any
  Error :: "ResponseError option"
  Meta :: "(string \<times> any) list"

text \<open>
  \<open>json.Marshal(envelope)\<close> with the struct tags of \<open>ResponseEnvelope\<close>: \<open>ok\<close> is always
  written; \<open>data\<close> is omitted for a nil interface, \<open>error\<close> for a nil pointer and
  \<open>meta\<close> for an empty map (\<open>omitempty\<close>).
\<close>

definition marshalEnvelope :: "ResponseEnvelope \<Rightarrow> json option" where
  "marshalEnvelope envelope =
     (case (if Data envelope = ANil then Some []
            else map_option (\<lambda>d. [(''data'', d)]) (marshalAny (Data envelope))) of
        None \<Rightarrow> None
      | Some dataField \<Rightarrow>
          (case (if Meta envelope = [] then Some []
                 else map_option (\<lambda>m. [(''meta'', m)]) (marshalAny (AMap (Meta envelope)))) of
             None \<Rightarrow> None
           | Some metaField \<Rightarrow>
               Some (JObject
                 ([(''ok'', JBool (OK envelope))] @ dataField @
                  (case Error envelope of
                     None \<Rightarrow> []
                   | Some e \<Rightarrow> [(''error'', JObject [(''message'', JString (Message e))])]) @
                  metaField))))"

definition fallbackEnvelope :: json where
  "fallbackEnvelope =
     JObject [(''ok'', JBool False),
              (''error'', JObject [(''message'',
                 JString ''failed to encode tool response envelope'')])]"

definition encodeEnvelope :: "ResponseEnvelope \<Rightarrow> json" where
  "encodeEnvelope envelope =
     (case marshalEnvelope envelope of None \<Rightarrow> fallbackEnvelope | Some payload \<Rightarrow> payload)"

definition SuccessEnvelope :: "any \<Rightarrow> (string \<times> any) list \<Rightarrow> json" where
  "SuccessEnvelope data meta =
     encodeEnvelope \<lparr>OK = True, Data = data, Error = None, Meta = meta\<rparr>"

definition ErrorEnvelope :: "string \<Rightarrow> (string \<times> any) list \<Rightarrow> json" where
  "ErrorEnvelope message meta =
     encodeEnvelope \<lparr>OK = False, Data = ANil, Error = Some \<lparr>Message = message\<rparr>, Meta = meta\<rparr>"

subsection \<open>The registry\<close>

text \<open>
  \<open>Context\<close> is \<open>None\<close> for a nil context and otherwise holds what \<open>Err()\<close> returns at
  the time of the call. \<open>Timeout\<close> is a \<open>time.Duration\<close>, in nanoseconds. The logger is
  left out.
\<close>

record ToolContext =
  CWD :: string
  AllowedRoot :: string
  Timeout :: int
  Context :: "ctxError option option"
  CorrelationID :: string


text \<open>
  What \<open>Registry.Execute\<close> returns and leaves behind. The envelope text is \<open>None\<close> for the
  empty string. \<open>invoked\<close> is a ghost variable: the tools whose \<open>Execute\<close> was called,
  with the arguments passed.
\<close>

record 'w Executed =
  envelope :: "json option"
  matched :: bool
  worldAfter :: 'w
  invoked :: "(string \<times> string) list"










section \<open>Paths and path confinement\<close>

subsection \<open>Package path/filepath on Unix\<close>

text \<open>
  The lexical functions of \<open>path/filepath\<close> that the repository calls, for the
  separator \<open>/\<close> and without volume names. \<open>splitSlash\<close> is \<open>strings.Split(s, "/")\<close>.
\<close>

fun splitSlash :: "string \<Rightarrow> string list" where
  "splitSlash [] = [[]]"
| "splitSlash (c # s) =
     (if c = CHR ''/'' then [] # splitSlash s
      else case splitSlash s of [] \<Rightarrow> [[c]] | x # xs \<Rightarrow> (c # x) # xs)"

fun joinSlash :: "string list \<Rightarrow> string" where
  "joinSlash [] = []"
| "joinSlash [x] = x"
| "joinSlash (x # y # ys) = x @ ''/'' @ joinSlash (y # ys)"

definition IsAbs :: "string \<Rightarrow> bool" where
  "IsAbs path \<longleftrightarrow> path \<noteq> [] \<and> hd path = CHR ''/''"

text \<open>
  \<open>Clean\<close>: empty and \<open>.\<close> elements are dropped; \<open>..\<close> removes the element before it,
  is dropped at the root of a rooted path and is kept at the start of an unrooted one.
\<close>

definition cleanStep :: "bool \<Rightarrow> string list \<Rightarrow> string \<Rightarrow> string list" where
  "cleanStep rooted out element =
     (if element = '''' \<or> element = ''.'' then out
      else if element = ''..'' then
        (if out \<noteq> [] \<and> last out \<noteq> ''..'' then butlast out
         else if rooted then out else out @ [''..''])
      else out @ [element])"

definition Clean :: "string \<Rightarrow> string" where
  "Clean path =
     (if path = '''' then ''.''
      else
        (let out = foldl (cleanStep (IsAbs path)) [] (splitSlash path) in
         if IsAbs path then ''/'' @ joinSlash out
         else if out = [] then ''.'' else joinSlash out))"

text \<open>\<open>Join\<close> of two elements: the elements from the first non-empty one on, cleaned.\<close>

definition Join :: "string \<Rightarrow> string \<Rightarrow> string" where
  "Join a b =
     (if a \<noteq> '''' then Clean (a @ ''/'' @ b) else if b \<noteq> '''' then Clean b else '''')"

text \<open>\<open>Dir\<close>: the path up to and including its last separator, cleaned.\<close>

definition Dir :: "string \<Rightarrow> string" where
  "Dir path = Clean (rev (dropWhile (\<lambda>c. c \<noteq> CHR ''/'') (rev path)))"

text \<open>The non-empty elements of a path.\<close>

definition elements :: "string \<Rightarrow> string list" where
  "elements path = filter (\<lambda>e. e \<noteq> '''') (splitSlash path)"

fun commonPrefix :: "'a list \<Rightarrow> 'a list \<Rightarrow> nat" where
  "commonPrefix (x # xs) (y # ys) = (if x = y then Suc (commonPrefix xs ys) else 0)"
| "commonPrefix xs ys = 0"

datatype relError = RelError

text \<open>
  \<open>Rel\<close>: both paths are cleaned; equal paths give \<open>.\<close>; a rooted and an unrooted path
  cannot be related; otherwise the common leading elements are dropped and one \<open>..\<close> is
  written for every element left of the base, followed by what is left of the target.
\<close>

definition Rel :: "string \<Rightarrow> string \<Rightarrow> relError + string" where
  "Rel basepath targpath =
     (let base = Clean basepath; targ = Clean targpath in
      if targ = base then Inr ''.''
      else
        (let base = (if base = ''.'' then '''' else base) in
         if IsAbs base \<noteq> IsAbs targ then Inl RelError
         else
           (let n = commonPrefix (elements base) (elements targ);
                b = drop n (elements base);
                t = drop n (elements targ)
            in if b \<noteq> [] \<and> t \<noteq> [] \<and> hd b = ''..'' then Inl RelError
               else if b \<noteq> [] then Inr (joinSlash (replicate (length b) ''..'' @ t))
               else Inr (joinSlash t))))"

subsection \<open>The operating system\<close>

text \<open>
  What the repository asks of the operating system, as functions of a file-system state
  \<open>'fs\<close>. \<open>ErrNotExist\<close> is every error for which \<open>errors.Is(err, os.ErrNotExist)\<close>
  holds. \<open>Lstat\<close> returns \<open>None\<close> when the file exists (the file information is not
  used by the callers).
\<close>

datatype oserr = ErrNotExist | ErrOther string

record 'fs OS =
  Getwd :: "'fs \<Rightarrow> oserr + string"
  Lstat :: "'fs \<Rightarrow> string \<Rightarrow> oserr option"
  EvalSymlinks :: "'fs \<Rightarrow> string \<Rightarrow> oserr + string"
  ReadFile :: "'fs \<Rightarrow> string \<Rightarrow> oserr + string"
  WriteFile :: "'fs \<Rightarrow> string \<Rightarrow> string \<Rightarrow> oserr + 'fs"
  MkdirAll :: "'fs \<Rightarrow> string \<Rightarrow> oserr + 'fs"

definition Abs :: "'fs OS \<Rightarrow> 'fs \<Rightarrow> string \<Rightarrow> oserr + string" where
  "Abs os fs path =
     (if IsAbs path then Inr (Clean path)
      else case Getwd os fs of Inl e \<Rightarrow> Inl e | Inr wd \<Rightarrow> Inr (Join wd path))"

subsection \<open>ResolvePath and EnsurePathAllowed\<close>

definition ResolvePath :: "ToolContext \<Rightarrow> string \<Rightarrow> string" where
  "ResolvePath ctx pathValue =
     (let trimmedPath = (if TrimSpace pathValue = '''' then ''.'' else TrimSpace pathValue) in
      if IsAbs trimmedPath then trimmedPath
      else Join (if TrimSpace (CWD ctx) = '''' then ''.'' else TrimSpace (CWD ctx)) trimmedPath)"

datatype resolveError = OSError oserr | NoExistingParent | RelFailed

text \<open>
  The loop of \<open>findExistingParent\<close>. Its termination rests on \<open>Dir\<close> shortening a
  path; \<open>None\<close> stands for a loop that does not return.
\<close>

partial_function (option) findExistingLoop ::
  "(string \<Rightarrow> oserr option) \<Rightarrow> string \<Rightarrow> (resolveError + string) option"
where
  "findExistingLoop lstat current =
     (case lstat current of
        None \<Rightarrow> Some (Inr current)
      | Some e \<Rightarrow>
          if e \<noteq> ErrNotExist then Some (Inl (OSError e))
          else (let next = Dir current in
                if next = current then Some (Inl NoExistingParent)
                else findExistingLoop lstat next))"

declare findExistingLoop.simps [code]

definition findExistingParent :: "'fs OS \<Rightarrow> 'fs \<Rightarrow> string \<Rightarrow> (resolveError + string) option" where
  "findExistingParent os fs path = findExistingLoop (Lstat os fs) (Clean path)"

definition resolveRealPath :: "'fs OS \<Rightarrow> 'fs \<Rightarrow> string \<Rightarrow> (resolveError + string) option" where
  "resolveRealPath os fs absPath =
     (case EvalSymlinks os fs absPath of
        Inr realPath \<Rightarrow> Some (Inr realPath)
      | Inl e \<Rightarrow>
          if e \<noteq> ErrNotExist then Some (Inl (OSError e))
          else
            (case findExistingParent os fs absPath of
               None \<Rightarrow> None
             | Some (Inl e') \<Rightarrow> Some (Inl e')
             | Some (Inr existingParent) \<Rightarrow>
                 (case EvalSymlinks os fs existingParent of
                    Inl e' \<Rightarrow> Some (Inl (OSError e'))
                  | Inr realParent \<Rightarrow>
                      (case Rel existingParent absPath of
                         Inl e' \<Rightarrow> Some (Inl RelFailed)
                       | Inr remainder \<Rightarrow> Some (Inr (Clean (Join realParent remainder)))))))"

datatype pathError =
    AllowedRootRequired
  | ResolveRootFailed oserr
  | EvalRootFailed oserr
  | ResolvePathFailed oserr
  | EvalPathFailed resolveError
  | PolicyFailed
  | OutsideAllowedRoot

text \<open>\<open>EnsurePathAllowed\<close>: \<open>Inr ()\<close> is the nil error.\<close>

definition EnsurePathAllowed ::
  "'fs OS \<Rightarrow> 'fs \<Rightarrow> ToolContext \<Rightarrow> string \<Rightarrow> (pathError + unit) option"
where
  "EnsurePathAllowed os fs ctx resolvedPath =
     (let allowedRoot = TrimSpace (AllowedRoot ctx) in
      if allowedRoot = '''' then Some (Inl AllowedRootRequired)
      else case Abs os fs allowedRoot of
        Inl e \<Rightarrow> Some (Inl (ResolveRootFailed e))
      | Inr absRoot \<Rightarrow>
          (case EvalSymlinks os fs absRoot of
             Inl e \<Rightarrow> Some (Inl (EvalRootFailed e))
           | Inr realRoot \<Rightarrow>
               (case Abs os fs resolvedPath of
                  Inl e \<Rightarrow> Some (Inl (ResolvePathFailed e))
                | Inr absPath \<Rightarrow>
                    (case resolveRealPath os fs absPath of
                       None \<Rightarrow> None
                     | Some (Inl e) \<Rightarrow> Some (Inl (EvalPathFailed e))
                     | Some (Inr realPath) \<Rightarrow>
                         (case Rel realRoot realPath of
                            Inl e \<Rightarrow> Some (Inl PolicyFailed)
                          | Inr relPath \<Rightarrow>
                              if relPath = ''..'' \<or> prefix ''../'' relPath
                              then Some (Inl OutsideAllowedRoot)
                              else Some (Inr ()))))))"

subsection \<open>Path confinement, as the specification words it\<close>

text \<open>
  A name is an element that is not empty, not \<open>.\<close>, not \<open>..\<close> and holds no separator.
  \<open>rooted cs\<close> is the absolute path with the elements \<open>cs\<close>; a path is canonical when
  it is such a path over names, which is to say absolute and clean.
\<close>

definition nameOK :: "string \<Rightarrow> bool" where
  "nameOK e \<longleftrightarrow> e \<noteq> '''' \<and> e \<noteq> ''.'' \<and> e \<noteq> ''..'' \<and> CHR ''/'' \<notin> set e"

definition rooted :: "string list \<Rightarrow> string" where
  "rooted cs = ''/'' @ joinSlash cs"

definition canonical :: "string \<Rightarrow> bool" where
  "canonical p \<longleftrightarrow> (\<exists>cs. list_all nameOK cs \<and> p = rooted cs)"

text \<open>
  What the model takes for granted of the operating system: \<open>EvalSymlinks\<close> of an
  absolute path returns an absolute, clean path, and the working directory is absolute.
\<close>

definition wellBehaved :: "'fs OS \<Rightarrow> 'fs \<Rightarrow> bool" where
  "wellBehaved os fs \<longleftrightarrow>
     (\<forall>p q. IsAbs p \<and> EvalSymlinks os fs p = Inr q \<longrightarrow> canonical q) \<and>
     (\<forall>wd. Getwd os fs = Inr wd \<longrightarrow> IsAbs wd)"

text \<open>
  The deepest existing ancestor of the path with elements \<open>cs\<close>: the greatest \<open>k\<close> for
  which \<open>Lstat\<close> of the first \<open>k\<close> elements does not say that the file is missing.
\<close>

definition ancestorDepth :: "(string \<Rightarrow> oserr option) \<Rightarrow> string list \<Rightarrow> nat option" where
  "ancestorDepth lstat cs =
     find (\<lambda>k. lstat (rooted (take k cs)) \<noteq> Some ErrNotExist) (rev [0..<Suc (length cs)])"

text \<open>
  A path made absolute, as it stands: a relative path is put below the working
  directory, and nothing is removed from it.
\<close>

definition absolute :: "'fs OS \<Rightarrow> 'fs \<Rightarrow> string \<Rightarrow> oserr + string" where
  "absolute os fs path =
     (if IsAbs path then Inr path
      else case Getwd os fs of Inl e \<Rightarrow> Inl e | Inr wd \<Rightarrow> Inr (wd @ ''/'' @ path))"

text \<open>
  The real path of an absolute candidate: its full symlink resolution when that succeeds;
  when the path does not exist, the resolution of the deepest existing ancestor followed by
  the elements below it.
\<close>

definition realPathSpec :: "'fs OS \<Rightarrow> 'fs \<Rightarrow> string \<Rightarrow> resolveError + string" where
  "realPathSpec os fs absPath =
     (case EvalSymlinks os fs absPath of
        Inr realPath \<Rightarrow> Inr realPath
      | Inl e \<Rightarrow>
          if e \<noteq> ErrNotExist then Inl (OSError e)
          else
            (case ancestorDepth (Lstat os fs) (elements absPath) of
               None \<Rightarrow> Inl NoExistingParent
             | Some k \<Rightarrow>
                 (case Lstat os fs (rooted (take k (elements absPath))) of
                    Some e' \<Rightarrow> Inl (OSError e')
                  | None \<Rightarrow>
                      (case EvalSymlinks os fs (rooted (take k (elements absPath))) of
                         Inl e' \<Rightarrow> Inl (OSError e')
                       | Inr realParent \<Rightarrow>
                           Inr (Clean (rooted (elements realParent @
                                               drop k (elements absPath))))))))"

text \<open>A path lies inside a root (or is the root) when the root's elements lead it.\<close>

definition inside :: "string \<Rightarrow> string \<Rightarrow> bool" where
  "inside root path \<longleftrightarrow> prefix (elements root) (elements path)"

text \<open>
  The check as the claim words it. The real root is the symlink resolution of the allowed
  root made absolute, the real path is that of the candidate made absolute; neither path
  is rewritten before it is resolved.
\<close>

definition ensureSpec :: "'fs OS \<Rightarrow> 'fs \<Rightarrow> ToolContext \<Rightarrow> string \<Rightarrow> pathError + unit" where
  "ensureSpec os fs ctx candidate =
     (if TrimSpace (AllowedRoot ctx) = '''' then Inl AllowedRootRequired
      else case absolute os fs (TrimSpace (AllowedRoot ctx)) of
        Inl e \<Rightarrow> Inl (ResolveRootFailed e)
      | Inr absRoot \<Rightarrow>
          (case EvalSymlinks os fs absRoot of
             Inl e \<Rightarrow> Inl (EvalRootFailed e)
           | Inr realRoot \<Rightarrow>
               (case absolute os fs candidate of
                  Inl e \<Rightarrow> Inl (ResolvePathFailed e)
                | Inr absPath \<Rightarrow>
                    (case realPathSpec os fs absPath of
                       Inl e \<Rightarrow> Inl (EvalPathFailed e)
                     | Inr realPath \<Rightarrow>
                         if inside realRoot realPath then Inr () else Inl OutsideAllowedRoot))))"

text \<open>
  A path is lexically clean when, made absolute, it is what \<open>Clean\<close> makes of it: it has
  no empty element, no \<open>.\<close> and no \<open>..\<close>.
\<close>

definition lexicallyClean :: "'fs OS \<Rightarrow> 'fs \<Rightarrow> string \<Rightarrow> bool" where
  "lexicallyClean os fs path =
     (case absolute os fs path of Inl e \<Rightarrow> True | Inr p \<Rightarrow> IsAbs p \<and> Clean p = p)"

subsection \<open>A file system for the examples\<close>

text \<open>
  A small Unix file system on which the functions of the operating system are computed,
  as the tests of the repository do with temporary directories. A tree maps absolute,
  clean paths to nodes; the root directory always exists. \<open>walk\<close> resolves the elements
  \<open>pending\<close> below the resolved elements \<open>dest\<close> and follows at most \<open>links\<close> symbolic
  links, which is how \<open>filepath.EvalSymlinks\<close> proceeds (its bound is 255).
\<close>

datatype node = Directory | Regular string | Symlink string

type_synonym tree = "(string \<times> node) list"

definition lookupNode :: "tree \<Rightarrow> string list \<Rightarrow> node option" where
  "lookupNode fs cs = (if cs = [] then Some Directory else map_of fs (rooted cs))"

function walk :: "tree \<Rightarrow> nat \<Rightarrow> string list \<Rightarrow> string list \<Rightarrow> oserr + string list" where
  "walk fs links dest [] = Inr dest"
| "walk fs links dest (c # rest) =
     (if c = '''' \<or> c = ''.'' then walk fs links dest rest
      else if c = ''..'' then walk fs links (butlast dest) rest
      else case lookupNode fs (dest @ [c]) of
          None \<Rightarrow> Inl ErrNotExist
        | Some Directory \<Rightarrow> walk fs links (dest @ [c]) rest
        | Some (Regular content) \<Rightarrow>
            if rest = [] then Inr (dest @ [c]) else Inl (ErrOther ''not a directory'')
        | Some (Symlink target) \<Rightarrow>
            if links = 0 then Inl (ErrOther ''too many links'')
            else walk fs (links - 1) (if IsAbs target then [] else dest)
                   (splitSlash target @ rest))"
  by pat_completeness auto
termination
  by (relation "measures [\<lambda>(fs, links, dest, pending). links,
                           \<lambda>(fs, links, dest, pending). length pending]") auto

definition evalSymlinks :: "tree \<Rightarrow> string \<Rightarrow> oserr + string" where
  "evalSymlinks fs path =
     (case walk fs 255 [] (splitSlash path) of Inl e \<Rightarrow> Inl e | Inr dest \<Rightarrow> Inr (rooted dest))"

text \<open>
  \<open>lstat\<close> follows the links of the directory part only, not a link in the last element;
  a last element \<open>.\<close> or \<open>..\<close> names a directory, which is resolved in full.
\<close>

definition lstat :: "tree \<Rightarrow> string \<Rightarrow> oserr option" where
  "lstat fs path =
     (let cs = elements path in
      if cs = [] then None
      else if last cs = ''.'' \<or> last cs = ''..'' then
        (case walk fs 255 [] cs of Inl e \<Rightarrow> Some e | Inr dir \<Rightarrow> None)
      else case walk fs 255 [] (butlast cs) of
          Inl e \<Rightarrow> Some e
        | Inr dir \<Rightarrow>
            (case lookupNode fs dir of
               Some Directory \<Rightarrow>
                 (case lookupNode fs (dir @ [last cs]) of
                    None \<Rightarrow> Some ErrNotExist
                  | Some n \<Rightarrow> None)
             | _ \<Rightarrow> Some (ErrOther ''not a directory'')))"

definition readFile :: "tree \<Rightarrow> string \<Rightarrow> oserr + string" where
  "readFile fs path =
     (case walk fs 255 [] (splitSlash path) of
        Inl e \<Rightarrow> Inl e
      | Inr dest \<Rightarrow>
          (case lookupNode fs dest of
             Some (Regular content) \<Rightarrow> Inr content
           | _ \<Rightarrow> Inl (ErrOther ''is a directory'')))"

text \<open>
  \<open>writeFile\<close> replaces the content of an existing regular file, or creates the file in
  an existing directory.
\<close>

definition writeFile :: "tree \<Rightarrow> string \<Rightarrow> string \<Rightarrow> oserr + tree" where
  "writeFile fs path content =
     (case walk fs 255 [] (splitSlash path) of
        Inr dest \<Rightarrow>
          (case lookupNode fs dest of
             Some (Regular old) \<Rightarrow> Inr ((rooted dest, Regular content) # fs)
           | _ \<Rightarrow> Inl (ErrOther ''is a directory''))
      | Inl e \<Rightarrow>
          if e \<noteq> ErrNotExist \<or> elements path = [] then Inl e
          else
            (case walk fs 255 [] (butlast (elements path)) of
               Inl e' \<Rightarrow> Inl e'
             | Inr dir \<Rightarrow>
                 (case (lookupNode fs dir, lookupNode fs (dir @ [last (elements path)])) of
                    (Some Directory, None) \<Rightarrow>
                      Inr ((rooted (dir @ [last (elements path)]), Regular content) # fs)
                  | _ \<Rightarrow> Inl e)))"

text \<open>\<open>mkdirAll\<close> creates the missing directories of a path, from the root down.\<close>

fun mkdirFrom :: "tree \<Rightarrow> string list \<Rightarrow> string list \<Rightarrow> oserr + tree" where
  "mkdirFrom fs dir [] = Inr fs"
| "mkdirFrom fs dir (c # rest) =
     (case walk fs 255 [] (dir @ [c]) of
        Inr dest \<Rightarrow>
          (case lookupNode fs dest of
             Some Directory \<Rightarrow> mkdirFrom fs dest rest
           | _ \<Rightarrow> Inl (ErrOther ''not a directory''))
      | Inl e \<Rightarrow>
          if e = ErrNotExist \<and> lookupNode fs (dir @ [c]) = None
          then mkdirFrom ((rooted (dir @ [c]), Directory) # fs) (dir @ [c]) rest
          else Inl e)"

definition mkdirAll :: "tree \<Rightarrow> string \<Rightarrow> oserr + tree" where
  "mkdirAll fs path = mkdirFrom fs [] (elements (Clean path))"

definition unixOS :: "string \<Rightarrow> tree OS" where
  "unixOS wd =
     \<lparr> Getwd = (\<lambda>fs. Inr wd), Lstat = lstat, EvalSymlinks = evalSymlinks,
       ReadFile = readFile, WriteFile = writeFile, MkdirAll = mkdirAll \<rparr>"

text \<open>
  The tree of the symlink tests: a root \<open>/work\<close> with a directory \<open>nested\<close> and a file in
  it, a directory \<open>/outside\<close> with a file, and links in the root that point out of it, to
  \<open>nested\<close>, to a missing file outside, and to a missing file in \<open>nested\<close>.
\<close>

definition exampleTree :: tree where
  "exampleTree =
     [(''/work'', Directory),
      (''/work/nested'', Directory),
      (''/work/nested/ok.txt'', Regular ''ok''),
      (''/outside'', Directory),
      (''/outside/secret.txt'', Regular ''secret''),
      (''/work/link-out'', Symlink ''/outside''),
      (''/work/link-in'', Symlink ''/work/nested''),
      (''/work/link-gone'', Symlink ''/outside/gone.txt''),
      (''/work/link-new'', Symlink ''/work/nested/new.txt'')]"

definition workContext :: ToolContext where
  "workContext =
     \<lparr> CWD = ''/work'', AllowedRoot = ''/work'', Timeout = 0, Context = None,
       CorrelationID = '''' \<rparr>"

text \<open>
  Plain paths of a tree. \<open>dirsBelow fs dest xs\<close>: the names \<open>xs\<close> lead from \<open>dest\<close>
  through directories only. \<open>plainBelow fs dest xs\<close>: the names \<open>xs\<close> lead from \<open>dest\<close>
  through directories, and then either end, or end in a regular file, or go on below a
  name that does not exist; no link is met. \<open>existingBelow\<close> counts the names of such a
  path that exist.
\<close>

fun dirsBelow :: "tree \<Rightarrow> string list \<Rightarrow> string list \<Rightarrow> bool" where
  "dirsBelow fs dest [] = True"
| "dirsBelow fs dest (x # xs) =
     (nameOK x \<and> lookupNode fs (dest @ [x]) = Some Directory \<and> dirsBelow fs (dest @ [x]) xs)"

fun plainBelow :: "tree \<Rightarrow> string list \<Rightarrow> string list \<Rightarrow> bool" where
  "plainBelow fs dest [] = True"
| "plainBelow fs dest (x # xs) =
     (nameOK x \<and>
      (case lookupNode fs (dest @ [x]) of
         None \<Rightarrow> list_all nameOK xs
       | Some Directory \<Rightarrow> plainBelow fs (dest @ [x]) xs
       | Some (Regular content) \<Rightarrow> xs = []
       | Some (Symlink target) \<Rightarrow> False))"

fun existingBelow :: "tree \<Rightarrow> string list \<Rightarrow> string list \<Rightarrow> nat" where
  "existingBelow fs dest [] = 0"
| "existingBelow fs dest (x # xs) =
     (case lookupNode fs (dest @ [x]) of
        None \<Rightarrow> 0
      | Some Directory \<Rightarrow> Suc (existingBelow fs (dest @ [x]) xs)
      | Some n \<Rightarrow> Suc 0)"

text \<open>
  A path through a link: the directories \<open>rs\<close> exist as such, the name \<open>l\<close> in the last
  of them is a symbolic link to the absolute path with the elements \<open>ts\<close>, and from the
  root of the tree \<open>ts\<close> followed by \<open>rest\<close> is a plain path. The path in question is
  \<open>rooted (rs @ l # rest)\<close>; the target exists when all of \<open>ts\<close> does.
\<close>

definition throughLink ::
  "tree \<Rightarrow> string list \<Rightarrow> string \<Rightarrow> string list \<Rightarrow> string list \<Rightarrow> bool"
where
  "throughLink fs rs l ts rest \<longleftrightarrow>
     dirsBelow fs [] rs \<and> nameOK l \<and>
     lookupNode fs (rs @ [l]) = Some (Symlink (rooted ts)) \<and>
     plainBelow fs [] (ts @ rest)"

section \<open>The Bash tool's command policy\<close>

text \<open>
  Package \<open>regexp\<close> is outside the repository: a library of regular expressions is a
  pair of \<open>Compile\<close>, which returns an error text or a compiled pattern, and
  \<open>MatchString\<close>.
\<close>

record 'r RegexpLib =
  Compile :: "string \<Rightarrow> string + 'r"
  MatchString :: "'r \<Rightarrow> string \<Rightarrow> bool"

text \<open>
  The sources of \<open>blockedCommandPatterns\<close>, in order: recursive delete from the root,
  \<open>shutdown\<close>, \<open>reboot\<close>, \<open>poweroff\<close>, \<open>mkfs\<close> and the fork bomb.
  \<open>regexp.MustCompile\<close> panics at start-up when a source does not compile, which is
  \<open>None\<close> here.
\<close>

definition blockedSources :: "string list" where
  "blockedSources =
     [''(?i)'' @ [backslash] @ ''brm'' @ [backslash] @ ''s+-rf'' @ [backslash] @ ''s+/'',
      ''(?i)'' @ [backslash] @ ''bshutdown'' @ [backslash] @ ''b'',
      ''(?i)'' @ [backslash] @ ''breboot'' @ [backslash] @ ''b'',
      ''(?i)'' @ [backslash] @ ''bpoweroff'' @ [backslash] @ ''b'',
      ''(?i)'' @ [backslash] @ ''bmkfs('' @ [backslash] @ ''.|'' @ [backslash] @ ''s)'',
      '':'' @ [backslash] @ ''s*'' @ [backslash] @ ''('' @ [backslash] @ ''s*'' @
        [backslash] @ '')'' @ [backslash] @ ''s*'' @ [backslash] @ ''{'' @ [backslash] @
        ''s*:'' @ [backslash] @ ''s*'' @ [backslash] @ ''|'' @ [backslash] @ ''s*:'' @
        [backslash] @ ''s*&'' @ [backslash] @ ''s*'' @ [backslash] @ ''}'' @ [backslash] @
        ''s*;'' @ [backslash] @ ''s*:'']"

fun compileAll :: "'r RegexpLib \<Rightarrow> string list \<Rightarrow> (string \<times> string) + 'r list" where
  "compileAll lib [] = Inr []"
| "compileAll lib (part # parts) =
     (case Compile lib part of
        Inl e \<Rightarrow> Inl (part, e)
      | Inr compiled \<Rightarrow>
          (case compileAll lib parts of Inl e \<Rightarrow> Inl e | Inr rest \<Rightarrow> Inr (compiled # rest)))"

definition blockedCommandPatterns :: "'r RegexpLib \<Rightarrow> 'r list option" where
  "blockedCommandPatterns lib =
     (case compileAll lib blockedSources of Inl e \<Rightarrow> None | Inr patterns \<Rightarrow> Some patterns)"

text \<open>\<open>strings.FieldsFunc\<close>: the maximal runs of characters that are not separators.\<close>

fun fieldsFrom :: "(char \<Rightarrow> bool) \<Rightarrow> string \<Rightarrow> string \<Rightarrow> string list" where
  "fieldsFrom sep field [] = (if field = [] then [] else [field])"
| "fieldsFrom sep field (c # s) =
     (if sep c then (if field = [] then fieldsFrom sep [] s else field # fieldsFrom sep [] s)
      else fieldsFrom sep (field @ [c]) s)"

definition FieldsFunc :: "string \<Rightarrow> (char \<Rightarrow> bool) \<Rightarrow> string list" where
  "FieldsFunc s sep = fieldsFrom sep [] s"

definition splitPolicyList :: "string \<Rightarrow> string list" where
  "splitPolicyList raw =
     filter (\<lambda>trimmed. trimmed \<noteq> '''')
       (map TrimSpace
          (FieldsFunc raw (\<lambda>r. r = CHR '','' \<or> r = CHR '';'' \<or> r = CHR 0x0A)))"

text \<open>
  \<open>compilePolicyPatterns\<close>: the error names the offending part and the library's
  message.
\<close>

definition compilePolicyPatterns :: "'r RegexpLib \<Rightarrow> string \<Rightarrow> (string \<times> string) + 'r list" where
  "compilePolicyPatterns lib raw =
     (if TrimSpace raw = '''' then Inr []
      else compileAll lib (splitPolicyList (TrimSpace raw)))"

datatype policyError =
    BlockedByPolicy
  | InvalidDenylist "string \<times> string"
  | BlockedByDenylist
  | InvalidAllowlist "string \<times> string"
  | BlockedByAllowlist

text \<open>
  \<open>validateCommandPolicy\<close>. \<open>blocked\<close> is the compiled blocklist; \<open>denylist\<close> and
  \<open>allowlist\<close> are the values of the two environment variables. \<open>None\<close> is the nil
  error.
\<close>

definition validateCommandPolicy ::
  "'r RegexpLib \<Rightarrow> 'r list \<Rightarrow> string \<Rightarrow> string \<Rightarrow> string \<Rightarrow> policyError option"
where
  "validateCommandPolicy lib blocked denylist allowlist command =
     (if list_ex (\<lambda>pattern. MatchString lib pattern command) blocked then Some BlockedByPolicy
      else case compilePolicyPatterns lib denylist of
        Inl e \<Rightarrow> Some (InvalidDenylist e)
      | Inr denylistPatterns \<Rightarrow>
          if list_ex (\<lambda>pattern. MatchString lib pattern command) denylistPatterns
          then Some BlockedByDenylist
          else (case compilePolicyPatterns lib allowlist of
                  Inl e \<Rightarrow> Some (InvalidAllowlist e)
                | Inr allowlistPatterns \<Rightarrow>
                    if length allowlistPatterns > 0
                    then (if list_ex (\<lambda>pattern. MatchString lib pattern command)
                               allowlistPatterns
                          then None else Some BlockedByAllowlist)
                    else None))"

text \<open>
  The patterns an environment value lists, and whether one of them is malformed.
\<close>

definition policyParts :: "string \<Rightarrow> string list" where
  "policyParts raw = (if TrimSpace raw = '''' then [] else splitPolicyList (TrimSpace raw))"

definition malformed :: "'r RegexpLib \<Rightarrow> string \<Rightarrow> bool" where
  "malformed lib raw = list_ex (\<lambda>part. isl (Compile lib part)) (policyParts raw)"

text \<open>
  A small library for examples: a pattern is a literal text and matches the commands that
  contain it; a source that contains an opening parenthesis does not compile.
\<close>

definition literalLib :: "string RegexpLib" where
  "literalLib =
     \<lparr>Compile = (\<lambda>source. if CHR ''('' \<in> set source then Inl ''missing closing )''
                          else Inr source),
      MatchString = (\<lambda>pattern command. \<exists>k \<in> set [0..<Suc (length command)].
                        take (length pattern) (drop k command) = pattern)\<rparr>"

section \<open>The session store\<close>

text \<open>
  \<open>validSessionIDPattern\<close> is \<open>^[A-Za-z0-9][A-Za-z0-9_-]{0,127}$\<close>; \<open>matchSessionID\<close> is
  its \<open>MatchString\<close>. The classes hold ASCII characters only, so that a string matches
  when its first byte is alphanumeric and at most 127 bytes of the second class follow.
\<close>

definition isAlnum :: "char \<Rightarrow> bool" where
  "isAlnum c \<longleftrightarrow>
     (let n = (of_char c :: nat) in
      (65 \<le> n \<and> n \<le> 90) \<or> (97 \<le> n \<and> n \<le> 122) \<or> (48 \<le> n \<and> n \<le> 57))"

definition isIDChar :: "char \<Rightarrow> bool" where
  "isIDChar c \<longleftrightarrow> isAlnum c \<or> c = CHR ''_'' \<or> c = CHR ''-''"

definition matchSessionID :: "string \<Rightarrow> bool" where
  "matchSessionID s =
     (case s of [] \<Rightarrow> False | c # rest \<Rightarrow> isAlnum c \<and> list_all isIDChar rest \<and> length rest \<le> 127)"

record JSONFileStore =
  sessionsDir :: string

datatype sessionError =
    InvalidSessionID
  | ReadFailed oserr
  | UnmarshalFailed
  | MarshalFailed
  | MkdirFailed oserr
  | WriteFailed oserr

definition normalizeSessionID :: "string \<Rightarrow> sessionError + string" where
  "normalizeSessionID sessionID =
     (let trimmed = TrimSpace sessionID in
      if trimmed = '''' then Inr ''''
      else if \<not> matchSessionID trimmed then Inl InvalidSessionID
      else Inr trimmed)"

definition sessionFilePath :: "JSONFileStore \<Rightarrow> string \<Rightarrow> sessionError + string" where
  "sessionFilePath store sessionID =
     (case normalizeSessionID sessionID of
        Inl e \<Rightarrow> Inl e
      | Inr normalizedSessionID \<Rightarrow>
          Inr (Join (sessionsDir store) (normalizedSessionID @ ''.json'')))"

text \<open>
  \<open>Load\<close> and \<open>Save\<close>, with the calls they make to the file system written down in the
  order they are made. \<open>unmarshal\<close> is \<open>json.Unmarshal\<close> into \<open>sessionData\<close> followed by
  the selection of the messages, \<open>marshal\<close> is \<open>json.MarshalIndent\<close> of the session
  data.
\<close>

datatype fsCall = CallReadFile string | CallMkdirAll string | CallWriteFile string

record Loaded =
  messages :: "sessionError + Message list"
  loadCalls :: "fsCall list"

record 'fs Saved =
  saveError :: "sessionError option"
  fsAfter :: 'fs
  saveCalls :: "fsCall list"

definition Load ::
  "'fs OS \<Rightarrow> (string \<Rightarrow> Message list option) \<Rightarrow> JSONFileStore \<Rightarrow> 'fs \<Rightarrow> string \<Rightarrow> Loaded"
where
  "Load os unmarshal store fs sessionID =
     (case normalizeSessionID sessionID of
        Inl e \<Rightarrow> \<lparr> messages = Inl e, loadCalls = [] \<rparr>
      | Inr normalizedSessionID \<Rightarrow>
          if normalizedSessionID = '''' then \<lparr> messages = Inr [], loadCalls = [] \<rparr>
          else
            (case sessionFilePath store normalizedSessionID of
               Inl e \<Rightarrow> \<lparr> messages = Inl e, loadCalls = [] \<rparr>
             | Inr path \<Rightarrow>
                 (case ReadFile os fs path of
                    Inl e \<Rightarrow>
                      if e = ErrNotExist
                      then \<lparr> messages = Inr [], loadCalls = [CallReadFile path] \<rparr>
                      else \<lparr> messages = Inl (ReadFailed e), loadCalls = [CallReadFile path] \<rparr>
                  | Inr bytes \<Rightarrow>
                      (case unmarshal bytes of
                         None \<Rightarrow>
                           \<lparr> messages = Inl UnmarshalFailed, loadCalls = [CallReadFile path] \<rparr>
                       | Some stored \<Rightarrow>
                           \<lparr> messages = Inr stored, loadCalls = [CallReadFile path] \<rparr>))))"

definition Save ::
  "'fs OS \<Rightarrow> (string \<Rightarrow> Message list \<Rightarrow> string option) \<Rightarrow> JSONFileStore \<Rightarrow> 'fs \<Rightarrow>
   string \<Rightarrow> Message list \<Rightarrow> 'fs Saved"
where
  "Save os marshal store fs sessionID history =
     (case normalizeSessionID sessionID of
        Inl e \<Rightarrow> \<lparr> saveError = Some e, fsAfter = fs, saveCalls = [] \<rparr>
      | Inr normalizedSessionID \<Rightarrow>
          if normalizedSessionID = ''''
          then \<lparr> saveError = None, fsAfter = fs, saveCalls = [] \<rparr>
          else
            (case marshal normalizedSessionID history of
               None \<Rightarrow> \<lparr> saveError = Some MarshalFailed, fsAfter = fs, saveCalls = [] \<rparr>
             | Some payload \<Rightarrow>
                 (case sessionFilePath store normalizedSessionID of
                    Inl e \<Rightarrow> \<lparr> saveError = Some e, fsAfter = fs, saveCalls = [] \<rparr>
                  | Inr path \<Rightarrow>
                      (case MkdirAll os fs (Dir path) of
                         Inl e \<Rightarrow>
                           \<lparr> saveError = Some (MkdirFailed e), fsAfter = fs,
                             saveCalls = [CallMkdirAll (Dir path)] \<rparr>
                       | Inr fs' \<Rightarrow>
                           (case WriteFile os fs' path payload of
                              Inl e \<Rightarrow>
                                \<lparr> saveError = Some (WriteFailed e), fsAfter = fs',
                                  saveCalls = [CallMkdirAll (Dir path), CallWriteFile path] \<rparr>
                            | Inr fs'' \<Rightarrow>
                                \<lparr> saveError = None, fsAfter = fs'',
                                  saveCalls = [CallMkdirAll (Dir path), CallWriteFile path] \<rparr>)))))"

text \<open>The calls a session operation may make for a session file.\<close>

definition sessionCalls :: "string \<Rightarrow> fsCall set" where
  "sessionCalls path = {CallReadFile path, CallMkdirAll (Dir path), CallWriteFile path}"

text \<open>A store for the examples, with codecs that keep no messages.\<close>

definition exampleStore :: JSONFileStore where
  "exampleStore = \<lparr> sessionsDir = ''/work/sessions'' \<rparr>"

definition noMessages :: "string \<Rightarrow> Message list option" where
  "noMessages bytes = Some []"

definition emptyPayload :: "string \<Rightarrow> Message list \<Rightarrow> string option" where
  "emptyPayload sessionID history = Some ''{}''"

section \<open>Properties of trimming\<close>

lemma TrimLeft_plain: "plainASCII a \<Longrightarrow> TrimLeft (a # s) = a # s"
proof -
  assume p: "plainASCII a"
  then have 1: "\<not> asciiSpace a" and 2: "\<And>b. \<not> space2 a b" and 3: "\<And>b c. \<not> space3 a b c"
    by (auto simp: plainASCII_def space2_def space3_def)
  show ?thesis
  proof (cases s)
    case Nil
    with 1 show ?thesis by simp
  next
    case (Cons b s')
    with 1 2 3 show ?thesis by (cases s') simp_all
  qed
qed

lemma TrimRightRev_plain: "plainASCII c \<Longrightarrow> TrimRightRev (c # s) = c # s"
proof -
  assume p: "plainASCII c"
  then have 1: "\<not> asciiSpace c" and 2: "\<And>b. \<not> space2 b c" and 3: "\<And>a b. \<not> space3 a b c"
    by (auto simp: plainASCII_def space2_def space3_def)
  show ?thesis
  proof (cases s)
    case Nil
    with 1 show ?thesis by simp
  next
    case (Cons b s')
    with 1 2 3 show ?thesis by (cases s') simp_all
  qed
qed

lemma TrimSpace_plain:
  assumes "s \<noteq> []" "plainASCII (hd s)" "plainASCII (last s)"
  shows "TrimSpace s = s"
proof -
  from assms obtain a s' where s: "s = a # s'" and a: "plainASCII a" by (cases s) auto
  then have l: "TrimLeft s = s" by (simp add: TrimLeft_plain)
  from assms obtain c u where r: "rev s = c # u" and c: "plainASCII c"
    by (cases s rule: rev_cases) auto
  then have "TrimRightRev (rev s) = rev s" by (simp add: TrimRightRev_plain)
  with l show ?thesis by (simp add: TrimSpace_def TrimRight_def)
qed

lemma TrimLeft_empty_iff: "TrimLeft s = [] \<longleftrightarrow> whitespaceOnly s"
  by (induction s rule: TrimLeft.induct) simp_all

lemma TrimLeft_idem: "TrimLeft (TrimLeft s) = TrimLeft s"
  by (induction s rule: TrimLeft.induct) simp_all

lemma wsRunes_append: "wsRunes x \<Longrightarrow> wsRunes y \<Longrightarrow> wsRunes (x @ y)"
  by (induction rule: wsRunes.induct) (auto intro: wsRunes.intros)

lemma space2_lead: "space2 a b \<Longrightarrow> \<not> asciiSpace a"
  by (simp add: space2_def asciiSpace_def)

lemma space3_lead: "space3 a b c \<Longrightarrow> \<not> asciiSpace a \<and> \<not> space2 a b"
  by (auto simp: space3_def space2_def asciiSpace_def)

lemma TrimLeft_ascii: "asciiSpace a \<Longrightarrow> TrimLeft (a # s) = TrimLeft s"
proof (cases s)
  case (Cons b s')
  assume "asciiSpace a"
  with Cons show ?thesis by (cases s') simp_all
qed simp

lemma TrimLeft_space2: "space2 a b \<Longrightarrow> TrimLeft (a # b # s) = TrimLeft s"
  by (cases s) (simp_all add: space2_lead)

lemma TrimLeft_space3: "space3 a b c \<Longrightarrow> TrimLeft (a # b # c # s) = TrimLeft s"
  by (simp add: space3_lead)

lemma wsRunes_TrimLeft: "wsRunes s \<Longrightarrow> TrimLeft s = []"
  by (induction rule: wsRunes.induct)
     (simp_all only: TrimLeft_ascii TrimLeft_space2 TrimLeft_space3 TrimLeft.simps(4))

lemma TrimLeft_wsRunes: "TrimLeft s = [] \<Longrightarrow> wsRunes s"
proof (induction s rule: TrimLeft.induct)
  case (1 a b c s)
  show ?case
  proof (cases "asciiSpace a")
    case True
    with 1 show ?thesis by (simp add: wsRunes.intros)
  next
    case na: False
    show ?thesis
    proof (cases "space2 a b")
      case True
      with na 1 show ?thesis by (simp add: wsRunes.intros)
    next
      case False
      with na 1 have "space3 a b c" by (auto split: if_splits)
      with na False 1 show ?thesis by (simp add: wsRunes.intros)
    qed
  qed
next
  case (2 a b)
  show ?case
  proof (cases "asciiSpace a")
    case True
    with 2 show ?thesis by (simp add: wsRunes.intros)
  next
    case False
    with 2 have "space2 a b" by (auto split: if_splits)
    then show ?thesis by (simp add: wsRunes.intros)
  qed
next
  case (3 a)
  then have "asciiSpace a" by (auto split: if_splits)
  then show ?case by (simp add: wsRunes.intros)
next
  case 4
  show ?case by (rule wsRunes.intros)
qed

lemma whitespaceOnly_wsRunes: "whitespaceOnly s \<Longrightarrow> wsRunes s"
  by (simp add: TrimLeft_wsRunes TrimLeft_empty_iff)

lemma wsRunes_whitespaceOnly: "wsRunes s \<Longrightarrow> whitespaceOnly s"
  using TrimLeft_empty_iff wsRunes_TrimLeft by blast

lemma whitespaceOnly_append:
  "whitespaceOnly x \<Longrightarrow> whitespaceOnly y \<Longrightarrow> whitespaceOnly (x @ y)"
  by (simp add: whitespaceOnly_wsRunes wsRunes_append wsRunes_whitespaceOnly)

lemma TrimRightRev_empty: "TrimRightRev u = [] \<Longrightarrow> wsRunes (rev u)"
proof (induction u rule: TrimRightRev.induct)
  case (1 c b a s)
  show ?case
  proof (cases "asciiSpace c")
    case True
    with 1 have "wsRunes (rev (b # a # s))" by simp
    moreover have "wsRunes [c]" using True by (auto intro: wsRunes.intros)
    ultimately have "wsRunes (rev (b # a # s) @ [c])" by (rule wsRunes_append)
    then show ?thesis by simp
  next
    case nc: False
    show ?thesis
    proof (cases "space2 b c")
      case True
      with nc 1 have "wsRunes (rev (a # s))" by simp
      moreover have "wsRunes [b, c]" using True by (auto intro: wsRunes.intros)
      ultimately have "wsRunes (rev (a # s) @ [b, c])" by (rule wsRunes_append)
      then show ?thesis by simp
    next
      case n2: False
      with nc 1 have s3: "space3 a b c" by (auto split: if_splits)
      with nc n2 1 have "wsRunes (rev s)" by simp
      moreover have "wsRunes [a, b, c]" using s3 by (auto intro: wsRunes.intros)
      ultimately have "wsRunes (rev s @ [a, b, c])" by (rule wsRunes_append)
      then show ?thesis by simp
    qed
  qed
next
  case (2 c b)
  then show ?case by (auto split: if_splits intro: wsRunes.intros)
next
  case (3 c)
  then show ?case by (auto split: if_splits intro: wsRunes.intros)
next
  case 4
  then show ?case by (simp add: wsRunes.intros)
qed

lemma TrimSpace_empty_iff: "TrimSpace s = [] \<longleftrightarrow> whitespaceOnly s"
proof
  assume "TrimSpace s = []"
  then have "TrimRightRev (rev (TrimLeft s)) = []" by (simp add: TrimSpace_def TrimRight_def)
  then have "wsRunes (rev (rev (TrimLeft s)))" by (rule TrimRightRev_empty)
  then have "whitespaceOnly (TrimLeft s)" by (simp add: wsRunes_whitespaceOnly)
  then have "TrimLeft (TrimLeft s) = []" by (simp add: TrimLeft_empty_iff)
  then show "whitespaceOnly s" by (simp add: TrimLeft_idem TrimLeft_empty_iff)
next
  assume "whitespaceOnly s"
  then have "TrimLeft s = []" by (simp add: TrimLeft_empty_iff)
  then show "TrimSpace s = []" by (simp add: TrimSpace_def TrimRight_def)
qed

section \<open>The argument normalizer meets its specification\<close>

lemma extractLoop_counting:
  "0 < d \<Longrightarrow> 0 \<le> st \<Longrightarrow> inS \<or> \<not> esc \<Longrightarrow>
   extractLoop input opn cls suf idx st d inS esc =
     (case firstZero d (kindsFrom opn cls inS esc suf) of
        None \<Rightarrow> ('''', False)
      | Some k \<Rightarrow> (TrimSpace (slice input (nat st) (idx + k + 1)), True))"
proof (induction suf arbitrary: idx d inS esc)
  case Nil
  then show ?case by simp
next
  case (Cons r rest)
  have d: "0 < d" and st: "0 \<le> st" and inv: "inS \<or> \<not> esc" using Cons.prems by auto
  note IH = Cons.IH [OF _ st]
  show ?case
  proof (cases inS)
    case True
    show ?thesis
    proof (cases esc)
      case True
      with \<open>inS\<close> d show ?thesis by (simp add: IH split: option.splits)
    next
      case False
      with \<open>inS\<close> d show ?thesis by (simp add: IH split: option.splits)
    qed
  next
    case False
    with inv have ne: "\<not> esc" by simp
    show ?thesis
    proof (cases "r = dquote")
      case True
      with False ne d show ?thesis by (simp add: IH split: option.splits)
    next
      case nq: False
      show ?thesis
      proof (cases "r = opn")
        case True
        from st have "st \<noteq> - 1" by simp
        with True False ne nq d show ?thesis by (simp add: IH split: option.splits)
      next
        case no: False
        show ?thesis
        proof (cases "r = cls")
          case True
          show ?thesis
          proof (cases "d = 1")
            case True
            with \<open>r = cls\<close> False ne nq no st show ?thesis by simp
          next
            case False
            with d have "0 < d - 1" by simp
            with \<open>d \<noteq> 1\<close> \<open>r = cls\<close> \<open>\<not> inS\<close> ne nq no d show ?thesis
              by (simp add: IH split: option.splits)
          qed
        next
          case False
          with \<open>\<not> inS\<close> ne nq no d show ?thesis by (simp add: IH split: option.splits)
        qed
      qed
    qed
  qed
qed

lemma spanIn_Nil: "spanIn [] = None"
  by (simp add: spanIn_def)

lemma spanIn_Cons:
  "spanIn (x # xs) =
     (if x = 1 then map_option (\<lambda>k. (0, k + 1)) (firstZero 1 xs)
      else map_option (\<lambda>(a, b). (Suc a, Suc b)) (spanIn xs))"
  by (cases "firstOpen xs") (simp_all add: spanIn_def option.map_comp comp_def)

lemma extractLoop_searching:
  "inS \<or> \<not> esc \<Longrightarrow>
   extractLoop input opn cls suf idx (- 1) 0 inS esc =
     (case spanIn (kindsFrom opn cls inS esc suf) of
        None \<Rightarrow> ('''', False)
      | Some (a, b) \<Rightarrow> (TrimSpace (slice input (idx + a) (idx + b + 1)), True))"
proof (induction suf arbitrary: idx inS esc)
  case Nil
  then show ?case by (simp add: spanIn_Nil)
next
  case (Cons r rest)
  have inv: "inS \<or> \<not> esc" using Cons.prems by auto
  note IH = Cons.IH
  show ?case
  proof (cases inS)
    case True
    show ?thesis
    proof (cases esc)
      case True
      with \<open>inS\<close> show ?thesis by (simp add: IH spanIn_Cons split: option.splits)
    next
      case False
      with \<open>inS\<close> show ?thesis by (simp add: IH spanIn_Cons split: option.splits)
    qed
  next
    case False
    with inv have ne: "\<not> esc" by simp
    show ?thesis
    proof (cases "r = dquote")
      case True
      with False ne show ?thesis by (simp add: IH spanIn_Cons split: option.splits)
    next
      case nq: False
      show ?thesis
      proof (cases "r = opn")
        case True
        have "extractLoop input opn cls rest (Suc idx) (int idx) 1 False False =
              (case firstZero 1 (kindsFrom opn cls False False rest) of
                 None \<Rightarrow> ('''', False)
               | Some k \<Rightarrow> (TrimSpace (slice input (nat (int idx)) (Suc idx + k + 1)), True))"
          by (rule extractLoop_counting) simp_all
        with True False ne nq show ?thesis by (simp add: spanIn_Cons split: option.splits)
      next
        case no: False
        with False ne nq show ?thesis by (simp add: IH spanIn_Cons split: option.splits)
      qed
    qed
  qed
qed

lemma find_map_comp: "find P (map f xs) = map_option f (find (P \<circ> f) xs)"
  by (induction xs) simp_all

lemma find_upt_Suc:
  "find Q [0..<Suc n] = (if Q 0 then Some 0 else map_option Suc (find (Q \<circ> Suc) [0..<n]))"
proof -
  have "[0..<Suc n] = 0 # map Suc [0..<n]"
    by (simp add: upt_conv_Cons map_Suc_upt del: upt_Suc)
  then show ?thesis by (simp add: find_map_comp del: upt_Suc)
qed

lemma firstOpen_find: "firstOpen ks = find (\<lambda>i. ks ! i = 1) [0..<length ks]"
proof (induction ks)
  case Nil
  then show ?case by simp
next
  case (Cons x xs)
  have "find (\<lambda>i. (x # xs) ! i = 1) [0..<Suc (length xs)] =
        (if x = 1 then Some 0 else map_option Suc (find (\<lambda>i. xs ! i = 1) [0..<length xs]))"
    by (subst find_upt_Suc) (simp add: comp_def)
  with Cons show ?case by simp
qed

lemma firstZero_find:
  "firstZero d xs = find (\<lambda>k. d + sum_list (take (Suc k) xs) = 0) [0..<length xs]"
proof (induction xs arbitrary: d)
  case Nil
  then show ?case by simp
next
  case (Cons x xs)
  have "find (\<lambda>k. d + sum_list (take (Suc k) (x # xs)) = 0) [0..<Suc (length xs)] =
        (if d + x = 0 then Some 0
         else map_option Suc (find (\<lambda>k. d + x + sum_list (take (Suc k) xs) = 0) [0..<length xs]))"
    by (subst find_upt_Suc) (simp add: comp_def add.assoc)
  with Cons [of "d + x"] show ?case by simp
qed

lemma find_from:
  assumes "a \<le> n"
  shows "find Q [a..<n] = map_option (\<lambda>k. a + k) (find (\<lambda>k. Q (a + k)) [0..<n - a])"
proof -
  have "[a..<n] = map (\<lambda>k. a + k) [0..<n - a]"
    using assms map_add_upt [of a "n - a"] by (simp add: add.commute)
  then show ?thesis by (simp add: find_map_comp comp_def)
qed

lemma closing_find:
  assumes "a \<le> length ks"
  shows "find (\<lambda>b. sum_list (slice ks a (Suc b)) = 0) [a..<length ks] =
         map_option (\<lambda>k. a + k) (firstZero 0 (drop a ks))"
proof -
  have "find (\<lambda>b. sum_list (slice ks a (Suc b)) = 0) [a..<length ks] =
        map_option (\<lambda>k. a + k)
          (find (\<lambda>k. sum_list (slice ks a (Suc (a + k))) = 0) [0..<length ks - a])"
    by (rule find_from [OF assms])
  also have "(\<lambda>k. sum_list (slice ks a (Suc (a + k))) = 0) =
             (\<lambda>k. 0 + sum_list (take (Suc k) (drop a ks)) = 0)"
    by (simp add: slice_def)
  finally show ?thesis by (simp add: firstZero_find)
qed

lemma firstOpen_Some: "firstOpen ks = Some a \<Longrightarrow> a < length ks \<and> ks ! a = 1"
  by (induction ks arbitrary: a) (auto split: if_splits)

lemma length_kindsFrom [simp]: "length (kindsFrom opn cls inS esc s) = length s"
  by (induction s arbitrary: inS esc) simp_all

lemma firstBalancedSpan_spanIn:
  "firstBalancedSpan opn cls s =
     map_option (\<lambda>(a, b). slice s a (Suc b)) (spanIn (kinds opn cls s))"
proof -
  define ks where "ks = kinds opn cls s"
  have len: "length ks = length s" by (simp add: ks_def kinds_def)
  show ?thesis
  proof (cases "firstOpen ks")
    case None
    then show ?thesis
      by (simp add: firstBalancedSpan_def spanIn_def firstOpen_find len flip: ks_def)
  next
    case (Some a)
    then have a: "a < length ks" "ks ! a = 1" using firstOpen_Some by blast+
    then have "drop a ks = 1 # drop (Suc a) ks" by (metis Cons_nth_drop_Suc)
    then have fz: "firstZero 0 (drop a ks) = map_option Suc (firstZero 1 (drop (Suc a) ks))"
      by simp
    have "find (\<lambda>b. sum_list (slice ks a (Suc b)) = 0) [a..<length ks] =
          map_option (\<lambda>k. a + k) (firstZero 0 (drop a ks))"
      using a by (intro closing_find) simp
    with Some fz show ?thesis
      by (cases "firstZero 1 (drop (Suc a) ks)")
         (simp_all add: firstBalancedSpan_def spanIn_def firstOpen_find len flip: ks_def)
  qed
qed

lemma extractBalancedJSON_span:
  "extractBalancedJSON s opn cls =
     (case firstBalancedSpan opn cls s of
        None \<Rightarrow> ('''', False)
      | Some span \<Rightarrow> (TrimSpace span, True))"
  by (simp add: extractBalancedJSON_def extractLoop_searching firstBalancedSpan_spanIn kinds_def
      split: option.splits)

lemma kindsFrom_range: "x \<in> set (kindsFrom opn cls inS esc s) \<Longrightarrow> - 1 \<le> x"
  by (induction s arbitrary: inS esc) (auto split: if_splits)

lemma kindsFrom_open:
  "i < length s \<Longrightarrow> kindsFrom opn cls inS esc s ! i = 1 \<Longrightarrow> s ! i = opn"
proof (induction s arbitrary: i inS esc)
  case Nil
  then show ?case by simp
next
  case (Cons r rest)
  then show ?case by (cases i) (auto split: if_splits)
qed

lemma kindsFrom_close:
  "i < length s \<Longrightarrow> kindsFrom opn cls inS esc s ! i = - 1 \<Longrightarrow> s ! i = cls"
proof (induction s arbitrary: i inS esc)
  case Nil
  then show ?case by simp
next
  case (Cons r rest)
  then show ?case by (cases i) (auto split: if_splits)
qed

lemma firstZero_Some:
  "firstZero d xs = Some k \<Longrightarrow> 0 < d \<Longrightarrow> (\<And>x. x \<in> set xs \<Longrightarrow> - 1 \<le> x) \<Longrightarrow>
   k < length xs \<and> xs ! k = - 1"
proof (induction xs arbitrary: d k)
  case Nil
  then show ?case by simp
next
  case (Cons x xs)
  have x: "- 1 \<le> x" using Cons.prems(3) by simp
  show ?case
  proof (cases "d + x = 0")
    case True
    with Cons.prems(2) x have "x = - 1" by arith
    with True Cons.prems(1) show ?thesis by simp
  next
    case False
    with x Cons.prems(2) have pos: "0 < d + x" by arith
    from False Cons.prems(1) obtain k' where k': "firstZero (d + x) xs = Some k'" "k = Suc k'"
      by auto
    from Cons.IH [OF k'(1) pos] Cons.prems(3) have "k' < length xs \<and> xs ! k' = - 1" by simp
    with k' show ?thesis by simp
  qed
qed

lemma spanIn_Some:
  assumes "spanIn ks = Some (a, b)" and "\<And>x. x \<in> set ks \<Longrightarrow> - 1 \<le> x"
  shows "a < b \<and> b < length ks \<and> ks ! a = 1 \<and> ks ! b = - 1"
proof -
  from assms(1) obtain k where a: "firstOpen ks = Some a"
    and k: "firstZero 1 (drop (Suc a) ks) = Some k" and b: "b = a + k + 1"
    by (auto simp: spanIn_def split: option.splits)
  from a have a': "a < length ks" "ks ! a = 1" using firstOpen_Some by blast+
  have "k < length (drop (Suc a) ks) \<and> drop (Suc a) ks ! k = - 1"
    using k assms(2) by (intro firstZero_Some [where d = 1]) (auto dest: in_set_dropD)
  then have "k < length ks - Suc a" "ks ! (Suc a + k) = - 1" using a' by simp_all
  with a' b show ?thesis by simp
qed

lemma firstBalancedSpan_ends:
  assumes "firstBalancedSpan opn cls s = Some span"
  shows "span \<noteq> [] \<and> hd span = opn \<and> last span = cls"
proof -
  from assms obtain a b where ab: "spanIn (kinds opn cls s) = Some (a, b)"
    and sp: "span = slice s a (Suc b)"
    by (auto simp: firstBalancedSpan_spanIn)
  have "a < b \<and> b < length (kinds opn cls s) \<and> kinds opn cls s ! a = 1 \<and> kinds opn cls s ! b = - 1"
    using ab by (rule spanIn_Some) (auto simp: kinds_def dest: kindsFrom_range)
  then have lt: "a < b" "b < length s"
    and ka: "kindsFrom opn cls False False s ! a = 1"
    and kb: "kindsFrom opn cls False False s ! b = - 1"
    by (simp_all add: kinds_def)
  from lt ka have o: "s ! a = opn" by (intro kindsFrom_open [of a s opn cls False False]) simp_all
  from lt kb have c: "s ! b = cls" by (intro kindsFrom_close [of b s opn cls False False]) simp_all
  from lt have ne: "span \<noteq> []" by (simp add: sp slice_def)
  have len: "length span = Suc b - a" using lt by (simp add: sp slice_def)
  have "hd span = span ! 0" using ne by (simp add: hd_conv_nth)
  also have "\<dots> = s ! a" using lt by (simp add: sp slice_def)
  finally have h: "hd span = opn" using o by simp
  have "last span = span ! (b - a)" using ne len lt by (simp add: last_conv_nth)
  also have "\<dots> = s ! b" using lt by (simp add: sp slice_def)
  finally have l: "last span = cls" using c by simp
  from ne h l show ?thesis by simp
qed

lemma plainASCII_brackets:
  "plainASCII (CHR ''{'')" "plainASCII (CHR ''}'')" "plainASCII (CHR ''['')" "plainASCII (CHR '']'')"
  by (simp_all add: plainASCII_def asciiSpace_def)

lemma extractBalancedJSON_braces:
  "extractBalancedJSON s (CHR ''{'') (CHR ''}'') =
     (case firstBalancedSpan (CHR ''{'') (CHR ''}'') s of
        None \<Rightarrow> ('''', False) | Some span \<Rightarrow> (span, True))"
  using firstBalancedSpan_ends [of "CHR ''{''" "CHR ''}''" s]
  by (auto simp: extractBalancedJSON_span TrimSpace_plain plainASCII_brackets split: option.splits)

lemma extractBalancedJSON_brackets:
  "extractBalancedJSON s (CHR ''['') (CHR '']'') =
     (case firstBalancedSpan (CHR ''['') (CHR '']'') s of
        None \<Rightarrow> ('''', False) | Some span \<Rightarrow> (span, True))"
  using firstBalancedSpan_ends [of "CHR ''[''" "CHR '']''" s]
  by (auto simp: extractBalancedJSON_span TrimSpace_plain plainASCII_brackets split: option.splits)

text \<open>
  Claim C3. \<open>NormalizeJSONArguments\<close> maps empty or white-space-only input to
  \<open>("{}", true)\<close>; input whose trimmed form is valid JSON to that trimmed text; otherwise
  the first balanced \<open>{...}\<close> span of the trimmed text (braces inside string literals
  skipped, backslash escapes honoured) when that span is valid JSON; otherwise the first
  balanced \<open>[...]\<close> span when that is valid JSON; and every remaining input to
  \<open>valid = false\<close>. This holds for every validity predicate, \<open>json.Valid\<close> included.
\<close>

theorem NormalizeJSONArguments_spec:
  "NormalizeJSONArguments valid raw = normalizeSpec valid raw"
  by (simp add: NormalizeJSONArguments_def normalizeSpec_def TrimSpace_empty_iff
      extractBalancedJSON_braces extractBalancedJSON_brackets Let_def split: option.splits)

section \<open>The turn runner: budgets\<close>

lemma runLoop_return:
  "turn ctx runner complete exec cid s = Inl ret \<Longrightarrow>
   runLoop ctx runner complete exec cid s = Some ret"
  by (subst runLoop.simps) simp

lemma runLoop_continue:
  "turn ctx runner complete exec cid s = Inr s' \<Longrightarrow>
   runLoop ctx runner complete exec cid s = runLoop ctx runner complete exec cid s'"
  by (subst runLoop.simps) simp

lemma runLoop_reaches:
  "reaches (turn ctx runner complete exec cid) s0 s \<Longrightarrow>
   runLoop ctx runner complete exec cid s0 = runLoop ctx runner complete exec cid s"
  by (induction rule: reaches.induct) (simp_all add: runLoop_continue)

lemma RunPrompt_runLoop:
  "LLMClient runner = Some complete \<Longrightarrow> ExecuteTool runner = Some exec \<Longrightarrow>
   RunPrompt ctx runner w history prompt cid =
     runLoop ctx runner complete exec cid (entryState w history prompt)"
  by (simp add: RunPrompt_def entryState_def)

lemma dispatch_counters:
  "dispatchToolCalls ctx exec cid cs s = Inr s' \<Longrightarrow>
   toolCallsUsed s' = toolCallsUsed s \<and> turnNumber s' = turnNumber s \<and>
   lastAssistantText s' = lastAssistantText s"
  by (induction cs arbitrary: s) (auto split: option.splits prod.splits)

lemma turn_keeps_budget:
  assumes "turn ctx runner complete exec cid s = Inr s'"
    and "0 < MaxToolCalls (RunnerPolicy runner)"
  shows "toolCallsUsed s' \<le> MaxToolCalls (RunnerPolicy runner)"
  using assms
  by (auto simp: turn_def Let_def split: option.splits if_splits prod.splits sum.splits list.splits
      dest!: dispatch_counters)

lemma reaches_budget:
  assumes "reaches (turn ctx runner complete exec cid) (entryState w history prompt) s"
    and "0 < MaxToolCalls (RunnerPolicy runner)"
  shows "toolCallsUsed s \<le> MaxToolCalls (RunnerPolicy runner)"
  using assms
proof (induction rule: reaches.induct)
  case reaches_start
  then show ?case by (simp add: entryState_def)
next
  case (reaches_step s s')
  then show ?case using turn_keeps_budget by blast
qed

lemma turn_budget:
  assumes "ctx (world s) = None"
    and "\<not> (0 < MaxTurns (RunnerPolicy runner) \<and> MaxTurns (RunnerPolicy runner) < turnNumber s)"
    and "complete (world s)
           \<lparr>ReqModel = Model runner, Messages = messageHistory s, Tools = ToolDefinitions runner\<rparr>
         = (Inr r, w)"
    and "Choices r = choice # others"
    and "FinishReason choice \<noteq> ''stop''"
    and "ToolCalls (assistantMessageOf (jsonValid runner) (ChoiceMessage choice)) \<noteq> []"
    and "0 < MaxToolCalls (RunnerPolicy runner)"
    and "MaxToolCalls (RunnerPolicy runner) <
           toolCallsUsed s +
           int (length (ToolCalls (assistantMessageOf (jsonValid runner) (ChoiceMessage choice))))"
  shows "turn ctx runner complete exec cid s =
     Inl \<lparr>response =
            latestAssistantText (lastAssistantText s)
              (assistantMessageOf (jsonValid runner) (ChoiceMessage choice)) (ChoiceMessage choice),
          err = Some (ErrToolCallBudgetExceeded (MaxToolCalls (RunnerPolicy runner))
                  (toolCallsUsed s)
                  (int (length (ToolCalls
                     (assistantMessageOf (jsonValid runner) (ChoiceMessage choice)))))),
          final = s\<lparr>world := w,
                    messageHistory := messageHistory s @
                      [assistantMessageOf (jsonValid runner) (ChoiceMessage choice)],
                    lastAssistantText :=
                      latestAssistantText (lastAssistantText s)
                        (assistantMessageOf (jsonValid runner) (ChoiceMessage choice))
                        (ChoiceMessage choice)\<rparr>\<rparr>"
  using assms by (simp add: turn_def Let_def)

text \<open>
  Claim C4, as amended. Take any turn that \<open>RunPrompt\<close> reaches and in which the context
  is live, the turn limit is not hit, the client answers with at least one choice, the
  finish reason is not \<open>"stop"\<close>, \<open>MaxToolCalls > 0\<close> and the tool calls used so far plus
  the pruned tool calls of this turn exceed \<open>MaxToolCalls\<close>. Then \<open>RunPrompt\<close> returns the
  tool-budget error; the history is the one at the start of the turn plus the assistant
  message, and the list of executed tool calls is the one at the start of the turn: none of
  this turn's calls is executed.
\<close>

theorem tool_budget_checked_before_dispatch:
  assumes "LLMClient runner = Some complete" and "ExecuteTool runner = Some exec"
    and "reaches (turn ctx runner complete exec cid) (entryState w0 history prompt) s"
    and "ctx (world s) = None"
    and "\<not> (0 < MaxTurns (RunnerPolicy runner) \<and> MaxTurns (RunnerPolicy runner) < turnNumber s)"
    and "complete (world s)
           \<lparr>ReqModel = Model runner, Messages = messageHistory s, Tools = ToolDefinitions runner\<rparr>
         = (Inr r, w)"
    and "Choices r = choice # others"
    and "FinishReason choice \<noteq> ''stop''"
    and "0 < MaxToolCalls (RunnerPolicy runner)"
    and "MaxToolCalls (RunnerPolicy runner) <
           toolCallsUsed s +
           int (length (ToolCalls (assistantMessageOf (jsonValid runner) (ChoiceMessage choice))))"
  shows "RunPrompt ctx runner w0 history prompt cid =
     Some \<lparr>response =
            latestAssistantText (lastAssistantText s)
              (assistantMessageOf (jsonValid runner) (ChoiceMessage choice)) (ChoiceMessage choice),
          err = Some (ErrToolCallBudgetExceeded (MaxToolCalls (RunnerPolicy runner))
                  (toolCallsUsed s)
                  (int (length (ToolCalls
                     (assistantMessageOf (jsonValid runner) (ChoiceMessage choice)))))),
          final = s\<lparr>world := w,
                    messageHistory := messageHistory s @
                      [assistantMessageOf (jsonValid runner) (ChoiceMessage choice)],
                    lastAssistantText :=
                      latestAssistantText (lastAssistantText s)
                        (assistantMessageOf (jsonValid runner) (ChoiceMessage choice))
                        (ChoiceMessage choice)\<rparr>\<rparr>"
proof -
  have "toolCallsUsed s \<le> MaxToolCalls (RunnerPolicy runner)"
    using assms(3,9) by (rule reaches_budget)
  with assms(10)
  have ne: "ToolCalls (assistantMessageOf (jsonValid runner) (ChoiceMessage choice)) \<noteq> []"
    by auto
  have "RunPrompt ctx runner w0 history prompt cid = runLoop ctx runner complete exec cid s"
    using assms(1,2,3) by (simp add: RunPrompt_runLoop runLoop_reaches)
  moreover note turn_budget [where ctx = ctx and s = s and runner = runner and complete = complete
      and r = r and w = w and choice = choice and others = others and exec = exec and cid = cid,
      OF assms(4,5,6,7,8) ne assms(9,10)]
  ultimately show ?thesis by (simp add: runLoop_return)
qed

lemma TrimSpace_empty [simp]: "TrimSpace '''' = ''''"
  by (simp add: TrimSpace_def TrimRight_def)

lemma TrimSpace_braces: "TrimSpace ''{}'' = ''{}''"
  by (rule TrimSpace_plain) (simp_all add: plainASCII_brackets)

lemma sanitize_sample: "sanitizeToolCall (\<lambda>s. s = ''{}'') (sampleToolCall i n ''{}'') = sampleToolCall i n ''{}''"
  by (simp add: sanitizeToolCall_def NormalizeJSONArguments_def TrimSpace_braces sampleToolCall_def)

lemma TrimSpace_call: "TrimSpace ''call_1'' = ''call_1''" "TrimSpace ''call_2'' = ''call_2''"
  "TrimSpace ''ListDir'' = ''ListDir''" "TrimSpace ''Read'' = ''Read''"
  by (rule TrimSpace_plain; simp add: plainASCII_def asciiSpace_def)+

lemma sample_assistant:
  "assistantMessageOf (\<lambda>s. s = ''{}'') \<lparr>Role = RoleAssistant, Content = '''', ToolCallID = '''', ToolCalls = twoCalls\<rparr> =
   \<lparr>Role = RoleAssistant, Content = '''', ToolCallID = '''', ToolCalls = twoCalls\<rparr>"
  by (simp add: assistantMessageOf_def twoCalls_def sanitize_sample Let_def)
     (simp add: sampleToolCall_def TrimSpace_call)

text \<open>
  The test \<open>TestRunPrompt_EnforcesToolBudget\<close>: \<open>MaxToolCalls = 1\<close>, two calls requested in
  the first turn. The budget error is returned and nothing is executed.
\<close>

theorem tool_budget_witness:
  "RunPrompt neverCancelled (testRunner \<lparr>MaxTurns = 0, MaxToolCalls = 1\<rparr>)
     [responseWithToolCalls ''tool_calls'' twoCalls] [] ''budget'' ''corr-3'' =
   Some \<lparr>response = '''', err = Some (ErrToolCallBudgetExceeded 1 0 2),
         final = \<lparr>messageHistory =
                    [\<lparr>Role = RoleUser, Content = ''budget'', ToolCallID = '''', ToolCalls = []\<rparr>,
                     \<lparr>Role = RoleAssistant, Content = '''', ToolCallID = '''',
                      ToolCalls = twoCalls\<rparr>],
                  turnNumber = 1, toolCallsUsed = 0, lastAssistantText = '''', world = [],
                  executions = []\<rparr>\<rparr>"
  using tool_budget_checked_before_dispatch
    [of "testRunner \<lparr>MaxTurns = 0, MaxToolCalls = 1\<rparr>" queuedClient
        "\<lambda>w correlationID toolCall. (''{}'', w)" neverCancelled "''corr-3''"
        "[responseWithToolCalls ''tool_calls'' twoCalls]" "[]" "''budget''"
        "entryState [responseWithToolCalls ''tool_calls'' twoCalls] [] ''budget''"
        "responseWithToolCalls ''tool_calls'' twoCalls" "[]"
        "\<lparr>FinishReason = ''tool_calls'',
          ChoiceMessage = \<lparr>Role = RoleAssistant, Content = '''', ToolCallID = '''',
                           ToolCalls = twoCalls\<rparr>\<rparr>" "[]"]
  by (simp add: testRunner_def reaches_start neverCancelled_def queuedClient_def entryState_def
      responseWithToolCalls_def sample_assistant latestAssistantText_def)
     (simp add: twoCalls_def)

text \<open>
  Claim C4 as stated fails on a turn whose finish reason is \<open>"stop"\<close>: the loop breaks
  before the budget is looked at. With \<open>MaxToolCalls = 1\<close> and two well-formed calls in a
  \<open>"stop"\<close> turn, \<open>RunPrompt\<close> returns without an error (and executes nothing).
\<close>

theorem stop_turn_over_budget_returns_normally:
  "RunPrompt neverCancelled (testRunner \<lparr>MaxTurns = 0, MaxToolCalls = 1\<rparr>)
     [responseWithToolCalls ''stop'' twoCalls] [] ''budget'' ''corr-3'' =
   Some \<lparr>response = '''', err = None,
         final = \<lparr>messageHistory =
                    [\<lparr>Role = RoleUser, Content = ''budget'', ToolCallID = '''', ToolCalls = []\<rparr>,
                     \<lparr>Role = RoleAssistant, Content = '''', ToolCallID = '''',
                      ToolCalls = twoCalls\<rparr>],
                  turnNumber = 1, toolCallsUsed = 0, lastAssistantText = '''', world = [],
                  executions = []\<rparr>\<rparr>"
  by (simp add: RunPrompt_def testRunner_def runLoop_return turn_def neverCancelled_def
      queuedClient_def responseWithToolCalls_def sample_assistant latestAssistantText_def Let_def)

lemma sanitize_fields [simp]:
  "ID (sanitizeToolCall valid tc) = ID tc" "Name (sanitizeToolCall valid tc) = Name tc"
  by (simp_all add: sanitizeToolCall_def split: prod.splits)

lemma pruneToolCalls_calls:
  "ToolCalls (pruneToolCalls valid message am cs) =
     ToolCalls am @ map (sanitizeToolCall valid) (filter wellFormed cs)"
  by (induction cs arbitrary: am) (simp_all add: Let_def wellFormed_def)

lemma assistant_calls:
  "ToolCalls (assistantMessageOf valid message) =
     map (sanitizeToolCall valid) (filter wellFormed (ToolCalls message))"
  by (simp add: assistantMessageOf_def pruneToolCalls_calls)

lemma dispatch_live:
  assumes "\<And>w. ctx w = None"
  shows "dispatchToolCalls ctx exec cid cs s =
     Inr (s\<lparr>world := snd (toolMessages exec cid cs (world s)),
            executions := executions s @ cs,
            messageHistory := messageHistory s @ fst (toolMessages exec cid cs (world s))\<rparr>)"
proof (induction cs arbitrary: s)
  case Nil
  show ?case by simp
next
  case (Cons c cs)
  obtain resp w1 where e: "exec (world s) cid c = (resp, w1)" by fastforce
  obtain ms w2 where tm: "toolMessages exec cid cs w1 = (ms, w2)" by fastforce
  have live: "ctx (world s) = None" by (rule assms)
  show ?case
    by (simp add: live e tm
        Cons [of "s\<lparr>world := w1, executions := executions s @ [c],
                   messageHistory := messageHistory s @
                     [\<lparr>Role = RoleTool, Content = resp, ToolCallID = ID c,
                       ToolCalls = []\<rparr>]\<rparr>"])
qed

lemma dispatch_error:
  "dispatchToolCalls ctx exec cid cs s = Inl ret \<Longrightarrow> \<exists>e. err ret = Some (ContextError e)"
  by (induction cs arbitrary: s) (auto split: option.splits prod.splits)

lemma dispatch_history:
  "dispatchToolCalls ctx exec cid cs s = Inr s' \<Longrightarrow> prefix (messageHistory s) (messageHistory s')"
proof (induction cs arbitrary: s)
  case Nil
  then show ?case by simp
next
  case (Cons c cs)
  then show ?case
    by (auto split: option.splits prod.splits dest!: Cons.IH dest: append_prefixD)
qed

lemma turn_history:
  "turn ctx runner complete exec cid s = Inr s' \<Longrightarrow> prefix (messageHistory s) (messageHistory s')"
  by (auto simp: turn_def Let_def
      split: option.splits if_splits prod.splits sum.splits list.splits
      dest!: dispatch_history dest: append_prefixD)

lemma reaches_history:
  "reaches (turn ctx runner complete exec cid) s0 s \<Longrightarrow>
   prefix (messageHistory s0) (messageHistory s)"
proof (induction rule: reaches.induct)
  case reaches_start
  show ?case by simp
next
  case (reaches_step s s')
  then show ?case using turn_history prefix_order.trans by blast
qed

lemma turn_limit:
  "ctx (world s) = None \<Longrightarrow> 0 < MaxTurns (RunnerPolicy runner) \<Longrightarrow>
   MaxTurns (RunnerPolicy runner) < turnNumber s \<Longrightarrow>
   turn ctx runner complete exec cid s =
     Inl \<lparr>response = lastAssistantText s,
          err = Some (ErrMaxTurnsExceeded (MaxTurns (RunnerPolicy runner))), final = s\<rparr>"
  by (simp add: turn_def)

lemma turn_limit_only:
  assumes "turn ctx runner complete exec cid s = Inl ret"
    and "err ret = Some (ErrMaxTurnsExceeded m)"
  shows "0 < MaxTurns (RunnerPolicy runner) \<and> MaxTurns (RunnerPolicy runner) < turnNumber s \<and>
         m = MaxTurns (RunnerPolicy runner) \<and> final ret = s"
proof (cases "ctx (world s)")
  case (Some e)
  with assms show ?thesis by (auto simp: turn_def)
next
  case None
  show ?thesis
  proof (cases "0 < MaxTurns (RunnerPolicy runner) \<and> MaxTurns (RunnerPolicy runner) < turnNumber s")
    case True
    with None assms show ?thesis by (auto simp: turn_def)
  next
    case False
    with None assms have False
      by (auto simp: turn_def Let_def
          split: prod.splits sum.splits list.splits if_splits dest: dispatch_error)
    then show ?thesis ..
  qed
qed

lemma entryState_user:
  "entryState w history prompt =
     \<lparr>messageHistory = history @ [userMessage prompt], turnNumber = 1, toolCallsUsed = 0,
      lastAssistantText = '''', world = w, executions = []\<rparr>"
  by (simp add: entryState_def userMessage_def)

lemma first_turn_dispatches:
  assumes live: "\<And>w. ctx w = None"
    and limit: "MaxTurns (RunnerPolicy runner) = 1"
    and first: "complete w
           \<lparr>ReqModel = Model runner, Messages = history @ [userMessage prompt],
            Tools = ToolDefinitions runner\<rparr> = (Inr r, wn)"
    and choice: "Choices r = choice # others"
    and nostop: "FinishReason choice \<noteq> ''stop''"
    and calls: "filter wellFormed (ToolCalls (ChoiceMessage choice)) \<noteq> []"
    and budget: "\<not> (0 < MaxToolCalls (RunnerPolicy runner) \<and>
           MaxToolCalls (RunnerPolicy runner) <
             int (length (filter wellFormed (ToolCalls (ChoiceMessage choice)))))"
  shows "turn ctx runner complete exec cid (entryState w history prompt) =
     Inr \<lparr>messageHistory =
            history @
            [userMessage prompt, assistantMessageOf (jsonValid runner) (ChoiceMessage choice)] @
            fst (toolMessages exec cid
                   (ToolCalls (assistantMessageOf (jsonValid runner) (ChoiceMessage choice))) wn),
          turnNumber = 2,
          toolCallsUsed =
            int (length (ToolCalls (assistantMessageOf (jsonValid runner) (ChoiceMessage choice)))),
          lastAssistantText =
            latestAssistantText '''' (assistantMessageOf (jsonValid runner) (ChoiceMessage choice))
              (ChoiceMessage choice),
          world =
            snd (toolMessages exec cid
                   (ToolCalls (assistantMessageOf (jsonValid runner) (ChoiceMessage choice))) wn),
          executions = ToolCalls (assistantMessageOf (jsonValid runner) (ChoiceMessage choice))\<rparr>"
proof -
  have n: "ToolCalls (assistantMessageOf (jsonValid runner) (ChoiceMessage choice)) \<noteq> []"
    using calls by (simp add: assistant_calls)
  have b: "\<not> (0 < MaxToolCalls (RunnerPolicy runner) \<and>
           MaxToolCalls (RunnerPolicy runner) <
             int (length (ToolCalls (assistantMessageOf (jsonValid runner) (ChoiceMessage choice)))))"
    using budget by (simp add: assistant_calls)
  show ?thesis
    using n b limit first choice nostop
    by (simp add: turn_def entryState_user live dispatch_live [OF live] Let_def)
qed

text \<open>
  Claim C5, as amended. (1) With \<open>MaxTurns = 1\<close>, a context that is never cancelled, a
  first completion whose finish reason is not \<open>"stop"\<close> and that carries at least one
  well-formed tool call, and a tool-call budget that admits these calls (\<open>MaxToolCalls\<close>
  is not positive, or not below their number), \<open>RunPrompt\<close> executes the well-formed calls
  of the first turn in order, appends the assistant message and one tool message per call,
  and then fails with the max-turns error at the start of turn 2. (2) At any turn that
  \<open>RunPrompt\<close> reaches with a live context, \<open>MaxTurns > 0\<close> and a turn counter above
  \<open>MaxTurns\<close>, it returns the max-turns error and leaves the state as it is; the history
  still starts with the caller's history and the user message. (3) An iteration returns the
  max-turns error only when \<open>MaxTurns > 0\<close> and the turn counter exceeds it, and then the
  state is unchanged.
\<close>

theorem max_turns_checked_at_next_turn:
  assumes client: "LLMClient runner = Some complete" and executor: "ExecuteTool runner = Some exec"
  shows
    "((\<forall>w. ctx w = None) \<and> MaxTurns (RunnerPolicy runner) = 1 \<and>
      complete w
        \<lparr>ReqModel = Model runner, Messages = history @ [userMessage prompt],
         Tools = ToolDefinitions runner\<rparr> = (Inr r, wn) \<and>
      Choices r = choice # others \<and> FinishReason choice \<noteq> ''stop'' \<and>
      filter wellFormed (ToolCalls (ChoiceMessage choice)) \<noteq> [] \<and>
      \<not> (0 < MaxToolCalls (RunnerPolicy runner) \<and>
         MaxToolCalls (RunnerPolicy runner) <
           int (length (filter wellFormed (ToolCalls (ChoiceMessage choice))))) \<longrightarrow>
      RunPrompt ctx runner w history prompt cid =
        Some \<lparr>response =
                latestAssistantText ''''
                  (assistantMessageOf (jsonValid runner) (ChoiceMessage choice))
                  (ChoiceMessage choice),
              err = Some (ErrMaxTurnsExceeded 1),
              final =
                \<lparr>messageHistory =
                   history @
                   [userMessage prompt,
                    assistantMessageOf (jsonValid runner) (ChoiceMessage choice)] @
                   fst (toolMessages exec cid
                          (map (sanitizeToolCall (jsonValid runner))
                             (filter wellFormed (ToolCalls (ChoiceMessage choice)))) wn),
                 turnNumber = 2,
                 toolCallsUsed =
                   int (length (filter wellFormed (ToolCalls (ChoiceMessage choice)))),
                 lastAssistantText =
                   latestAssistantText ''''
                     (assistantMessageOf (jsonValid runner) (ChoiceMessage choice))
                     (ChoiceMessage choice),
                 world =
                   snd (toolMessages exec cid
                          (map (sanitizeToolCall (jsonValid runner))
                             (filter wellFormed (ToolCalls (ChoiceMessage choice)))) wn),
                 executions =
                   map (sanitizeToolCall (jsonValid runner))
                     (filter wellFormed (ToolCalls (ChoiceMessage choice)))\<rparr>\<rparr>) \<and>
     (reaches (turn ctx runner complete exec cid) (entryState w history prompt) s \<and>
      ctx (world s) = None \<and> 0 < MaxTurns (RunnerPolicy runner) \<and>
      MaxTurns (RunnerPolicy runner) < turnNumber s \<longrightarrow>
      RunPrompt ctx runner w history prompt cid =
        Some \<lparr>response = lastAssistantText s,
              err = Some (ErrMaxTurnsExceeded (MaxTurns (RunnerPolicy runner))), final = s\<rparr> \<and>
      prefix (history @ [userMessage prompt]) (messageHistory s)) \<and>
     (turn ctx runner complete exec cid s = Inl ret \<and> err ret = Some (ErrMaxTurnsExceeded m) \<longrightarrow>
      0 < MaxTurns (RunnerPolicy runner) \<and> MaxTurns (RunnerPolicy runner) < turnNumber s \<and>
      m = MaxTurns (RunnerPolicy runner) \<and> final ret = s)"
proof (intro conjI impI)
  assume a: "(\<forall>w. ctx w = None) \<and> MaxTurns (RunnerPolicy runner) = 1 \<and>
      complete w
        \<lparr>ReqModel = Model runner, Messages = history @ [userMessage prompt],
         Tools = ToolDefinitions runner\<rparr> = (Inr r, wn) \<and>
      Choices r = choice # others \<and> FinishReason choice \<noteq> ''stop'' \<and>
      filter wellFormed (ToolCalls (ChoiceMessage choice)) \<noteq> [] \<and>
      \<not> (0 < MaxToolCalls (RunnerPolicy runner) \<and>
         MaxToolCalls (RunnerPolicy runner) <
           int (length (filter wellFormed (ToolCalls (ChoiceMessage choice)))))"
  then have live: "\<And>w. ctx w = None" by simp
  let ?s1 = "\<lparr>messageHistory =
            history @
            [userMessage prompt, assistantMessageOf (jsonValid runner) (ChoiceMessage choice)] @
            fst (toolMessages exec cid
                   (ToolCalls (assistantMessageOf (jsonValid runner) (ChoiceMessage choice))) wn),
          turnNumber = 2,
          toolCallsUsed =
            int (length (ToolCalls (assistantMessageOf (jsonValid runner) (ChoiceMessage choice)))),
          lastAssistantText =
            latestAssistantText '''' (assistantMessageOf (jsonValid runner) (ChoiceMessage choice))
              (ChoiceMessage choice),
          world =
            snd (toolMessages exec cid
                   (ToolCalls (assistantMessageOf (jsonValid runner) (ChoiceMessage choice))) wn),
          executions = ToolCalls (assistantMessageOf (jsonValid runner) (ChoiceMessage choice))\<rparr>"
  have t1: "turn ctx runner complete exec cid (entryState w history prompt) = Inr ?s1"
    by (rule first_turn_dispatches [where r = r and others = others]) (use a in simp_all)
  have t2: "turn ctx runner complete exec cid ?s1 =
     Inl \<lparr>response = lastAssistantText ?s1,
          err = Some (ErrMaxTurnsExceeded (MaxTurns (RunnerPolicy runner))), final = ?s1\<rparr>"
    using a by (intro turn_limit) (simp_all add: live)
  have "RunPrompt ctx runner w history prompt cid = runLoop ctx runner complete exec cid ?s1"
    using client executor t1 by (simp add: RunPrompt_runLoop runLoop_continue)
  also have "\<dots> = Some \<lparr>response = lastAssistantText ?s1,
          err = Some (ErrMaxTurnsExceeded (MaxTurns (RunnerPolicy runner))), final = ?s1\<rparr>"
    using t2 by (rule runLoop_return)
  finally show "RunPrompt ctx runner w history prompt cid =
        Some \<lparr>response =
                latestAssistantText ''''
                  (assistantMessageOf (jsonValid runner) (ChoiceMessage choice))
                  (ChoiceMessage choice),
              err = Some (ErrMaxTurnsExceeded 1),
              final =
                \<lparr>messageHistory =
                   history @
                   [userMessage prompt,
                    assistantMessageOf (jsonValid runner) (ChoiceMessage choice)] @
                   fst (toolMessages exec cid
                          (map (sanitizeToolCall (jsonValid runner))
                             (filter wellFormed (ToolCalls (ChoiceMessage choice)))) wn),
                 turnNumber = 2,
                 toolCallsUsed =
                   int (length (filter wellFormed (ToolCalls (ChoiceMessage choice)))),
                 lastAssistantText =
                   latestAssistantText ''''
                     (assistantMessageOf (jsonValid runner) (ChoiceMessage choice))
                     (ChoiceMessage choice),
                 world =
                   snd (toolMessages exec cid
                          (map (sanitizeToolCall (jsonValid runner))
                             (filter wellFormed (ToolCalls (ChoiceMessage choice)))) wn),
                 executions =
                   map (sanitizeToolCall (jsonValid runner))
                     (filter wellFormed (ToolCalls (ChoiceMessage choice)))\<rparr>\<rparr>"
    using a by (simp add: assistant_calls)
next
  assume b: "reaches (turn ctx runner complete exec cid) (entryState w history prompt) s \<and>
      ctx (world s) = None \<and> 0 < MaxTurns (RunnerPolicy runner) \<and>
      MaxTurns (RunnerPolicy runner) < turnNumber s"
  then have "RunPrompt ctx runner w history prompt cid = runLoop ctx runner complete exec cid s"
    using client executor by (simp add: RunPrompt_runLoop runLoop_reaches)
  moreover have "turn ctx runner complete exec cid s =
     Inl \<lparr>response = lastAssistantText s,
          err = Some (ErrMaxTurnsExceeded (MaxTurns (RunnerPolicy runner))), final = s\<rparr>"
    using b by (intro turn_limit) simp_all
  ultimately show "RunPrompt ctx runner w history prompt cid =
        Some \<lparr>response = lastAssistantText s,
              err = Some (ErrMaxTurnsExceeded (MaxTurns (RunnerPolicy runner))), final = s\<rparr>"
    by (simp add: runLoop_return)
  from b have "prefix (messageHistory (entryState w history prompt)) (messageHistory s)"
    using reaches_history by blast
  then show "prefix (history @ [userMessage prompt]) (messageHistory s)"
    by (simp add: entryState_user)
next
  assume c: "turn ctx runner complete exec cid s = Inl ret \<and> err ret = Some (ErrMaxTurnsExceeded m)"
  then have *: "0 < MaxTurns (RunnerPolicy runner) \<and> MaxTurns (RunnerPolicy runner) < turnNumber s \<and>
         m = MaxTurns (RunnerPolicy runner) \<and> final ret = s"
    using turn_limit_only by blast
  from * show "0 < MaxTurns (RunnerPolicy runner)" by simp
  from * show "MaxTurns (RunnerPolicy runner) < turnNumber s" by simp
  from * show "m = MaxTurns (RunnerPolicy runner)" by simp
  from * show "final ret = s" by simp
qed

lemma one_assistant:
  "assistantMessageOf (\<lambda>s. s = ''{}'') \<lparr>Role = RoleAssistant, Content = '''', ToolCallID = '''', ToolCalls = oneCall\<rparr> =
   \<lparr>Role = RoleAssistant, Content = '''', ToolCallID = '''', ToolCalls = oneCall\<rparr>"
  by (simp add: assistantMessageOf_def oneCall_def sanitize_sample Let_def)
     (simp add: sampleToolCall_def TrimSpace_call)

lemma one_wellFormed: "filter wellFormed oneCall = oneCall"
  by (simp add: oneCall_def wellFormed_def sampleToolCall_def TrimSpace_call)

lemma one_sanitized: "map (sanitizeToolCall (\<lambda>s. s = ''{}'')) oneCall = oneCall"
  by (simp add: oneCall_def sanitize_sample)

lemma first_turn_sample:
  "turn neverCancelled (testRunner \<lparr>MaxTurns = 1, MaxToolCalls = 0\<rparr>) queuedClient
     (\<lambda>w correlationID toolCall. (''{}'', w)) ''corr-4''
     (entryState [responseWithToolCalls ''tool_calls'' oneCall] [] ''turn-limit'') =
   Inr afterFirstTurn"
  by code_simp

lemma second_turn_sample:
  "turn neverCancelled (testRunner \<lparr>MaxTurns = 1, MaxToolCalls = 0\<rparr>) queuedClient
     (\<lambda>w correlationID toolCall. (''{}'', w)) ''corr-4'' afterFirstTurn =
   Inl \<lparr>response = '''', err = Some (ErrMaxTurnsExceeded 1), final = afterFirstTurn\<rparr>"
  by (simp add: turn_def testRunner_def neverCancelled_def afterFirstTurn_def)

text \<open>
  The test \<open>TestRunPrompt_EnforcesMaxTurns\<close>: \<open>MaxTurns = 1\<close>, one call in the first turn.
  The call is executed, its result appended, and turn 2 fails with the max-turns error.
\<close>

theorem max_turns_witness:
  "RunPrompt neverCancelled (testRunner \<lparr>MaxTurns = 1, MaxToolCalls = 0\<rparr>)
     [responseWithToolCalls ''tool_calls'' oneCall] [] ''turn-limit'' ''corr-4'' =
     Some \<lparr>response = '''', err = Some (ErrMaxTurnsExceeded 1), final = afterFirstTurn\<rparr> \<and>
   executions afterFirstTurn = oneCall \<and>
   prefix [userMessage ''turn-limit''] (messageHistory afterFirstTurn) \<and>
   turnNumber afterFirstTurn = 2"
proof -
  have r: "reaches
     (turn neverCancelled (testRunner \<lparr>MaxTurns = 1, MaxToolCalls = 0\<rparr>) queuedClient
        (\<lambda>w correlationID toolCall. (''{}'', w)) ''corr-4'')
     (entryState [responseWithToolCalls ''tool_calls'' oneCall] [] ''turn-limit'') afterFirstTurn"
    by (rule reaches_step, rule reaches_start, rule first_turn_sample)
  note t = max_turns_checked_at_next_turn
    [where runner = "testRunner \<lparr>MaxTurns = 1, MaxToolCalls = 0\<rparr>" and complete = queuedClient
       and exec = "\<lambda>w correlationID toolCall. (''{}'', w)" and ctx = neverCancelled
       and w = "[responseWithToolCalls ''tool_calls'' oneCall]" and history = "[]"
       and prompt = "''turn-limit''" and r = "responseWithToolCalls ''tool_calls'' oneCall"
       and wn = "[]"
       and choice = "\<lparr>FinishReason = ''tool_calls'',
          ChoiceMessage = \<lparr>Role = RoleAssistant, Content = '''', ToolCallID = '''',
                           ToolCalls = oneCall\<rparr>\<rparr>"
       and others = "[]" and cid = "''corr-4''" and s = afterFirstTurn
       and ret = "\<lparr>response = '''', err = Some (ErrMaxTurnsExceeded 1), final = afterFirstTurn\<rparr>"
       and m = 1]
  have "executions afterFirstTurn = oneCall" "turnNumber afterFirstTurn = 2"
    by (simp_all add: afterFirstTurn_def)
  moreover have "lastAssistantText afterFirstTurn = ''''" by (simp add: afterFirstTurn_def)
  ultimately show ?thesis
    using t r second_turn_sample
    by (simp add: testRunner_def neverCancelled_def queuedClient_def responseWithToolCalls_def
        one_wellFormed)
qed

text \<open>
  Claim C5 as stated fails when the tool-call budget is smaller than the first turn's
  calls: with \<open>MaxTurns = 1\<close>, \<open>MaxToolCalls = 1\<close> and two well-formed calls in a first
  turn that does not stop, nothing is executed and the error is the budget error, not the
  max-turns error.
\<close>

theorem budget_preempts_turn_limit:
  "RunPrompt neverCancelled (testRunner \<lparr>MaxTurns = 1, MaxToolCalls = 1\<rparr>)
     [responseWithToolCalls ''tool_calls'' twoCalls] [] ''turn-limit'' ''corr-4'' =
   Some \<lparr>response = '''', err = Some (ErrToolCallBudgetExceeded 1 0 2),
         final = \<lparr>messageHistory =
                    [userMessage ''turn-limit'',
                     \<lparr>Role = RoleAssistant, Content = '''', ToolCallID = '''',
                      ToolCalls = twoCalls\<rparr>],
                  turnNumber = 1, toolCallsUsed = 0, lastAssistantText = '''', world = [],
                  executions = []\<rparr>\<rparr>"
  by code_simp

section \<open>The tool boundary: envelopes and early exits\<close>

lemma marshalEnvelope_error:
  "marshalEnvelope \<lparr>OK = False, Data = ANil, Error = Some \<lparr>Message = msg\<rparr>, Meta = m\<rparr> =
     (if m = [] then Some (JObject [(''ok'', JBool False),
                                   (''error'', JObject [(''message'', JString msg)])])
      else map_option (\<lambda>j. JObject [(''ok'', JBool False),
                                      (''error'', JObject [(''message'', JString msg)]),
                                      (''meta'', j)]) (marshalAny (AMap m)))"
  by (cases "marshalAny (AMap m)") (simp_all add: marshalEnvelope_def del: marshalAny.simps(5,6))

lemma ErrorEnvelope_members:
  "member ''ok'' (ErrorEnvelope msg m) = Some (JBool False) \<and>
   member ''data'' (ErrorEnvelope msg m) = None \<and>
   (\<exists>text. member ''error'' (ErrorEnvelope msg m) = Some (JObject [(''message'', JString text)]))"
  by (cases "marshalAny (AMap m)")
     (simp_all add: ErrorEnvelope_def encodeEnvelope_def marshalEnvelope_error fallbackEnvelope_def
        member_def del: marshalAny.simps(5,6))


lemma SuccessEnvelope_value:
  "SuccessEnvelope d m =
     (case (if d = ANil then Some [] else map_option (\<lambda>j. [(''data'', j)]) (marshalAny d)) of
        None \<Rightarrow> fallbackEnvelope
      | Some dataField \<Rightarrow>
          (case (if m = [] then Some []
                 else map_option (\<lambda>j. [(''meta'', j)]) (marshalAny (AMap m))) of
             None \<Rightarrow> fallbackEnvelope
           | Some metaField \<Rightarrow> JObject ([(''ok'', JBool True)] @ dataField @ metaField)))"
  by (simp add: SuccessEnvelope_def encodeEnvelope_def marshalEnvelope_def del: marshalAny.simps(5,6)
      split: option.splits)

lemma marshal_empty_map: "marshalAny (AMap []) = Some (JObject [])"
  by simp

text \<open>
  Claim C7, as amended. Every envelope \<open>SuccessEnvelope\<close> and \<open>ErrorEnvelope\<close> produce,
  the fixed fallback included, has the member \<open>ok\<close> and never both \<open>data\<close> and
  \<open>error\<close>. A success envelope for a result that is not nil and that \<open>json.Marshal\<close>
  encodes carries \<open>ok = true\<close>, the encoded \<open>data\<close> and no \<open>error\<close>; for a nil result
  it carries neither \<open>data\<close> nor \<open>error\<close>; for a result or a meta map that does not
  encode it is the fallback, which carries \<open>ok = false\<close>, \<open>error\<close> and no \<open>data\<close>. An
  error envelope carries \<open>ok = false\<close>, \<open>error\<close> and no \<open>data\<close>, for every message and
  every meta map.
\<close>

theorem envelope_ok_and_one_of_data_error:
  "(\<exists>b. member ''ok'' (SuccessEnvelope d m) = Some (JBool b)) \<and>
   \<not> (member ''data'' (SuccessEnvelope d m) \<noteq> None \<and>
      member ''error'' (SuccessEnvelope d m) \<noteq> None) \<and>
   (d \<noteq> ANil \<and> marshalAny d = Some jd \<and> marshalAny (AMap m) \<noteq> None \<longrightarrow>
      member ''ok'' (SuccessEnvelope d m) = Some (JBool True) \<and>
      member ''data'' (SuccessEnvelope d m) = Some jd \<and>
      member ''error'' (SuccessEnvelope d m) = None) \<and>
   (d = ANil \<and> marshalAny (AMap m) \<noteq> None \<longrightarrow>
      member ''ok'' (SuccessEnvelope d m) = Some (JBool True) \<and>
      member ''data'' (SuccessEnvelope d m) = None \<and>
      member ''error'' (SuccessEnvelope d m) = None) \<and>
   (marshalAny d = None \<or> marshalAny (AMap m) = None \<longrightarrow>
      SuccessEnvelope d m = fallbackEnvelope) \<and>
   member ''ok'' fallbackEnvelope = Some (JBool False) \<and>
   member ''data'' fallbackEnvelope = None \<and>
   member ''error'' fallbackEnvelope \<noteq> None \<and>
   member ''ok'' (ErrorEnvelope msg m) = Some (JBool False) \<and>
   member ''data'' (ErrorEnvelope msg m) = None \<and>
   member ''error'' (ErrorEnvelope msg m) \<noteq> None"
proof -
  have fb: "member ''ok'' fallbackEnvelope = Some (JBool False)"
    "member ''data'' fallbackEnvelope = None" "member ''error'' fallbackEnvelope \<noteq> None"
    by (simp_all add: fallbackEnvelope_def member_def)
  have s: "(\<exists>b. member ''ok'' (SuccessEnvelope d m) = Some (JBool b)) \<and>
     \<not> (member ''data'' (SuccessEnvelope d m) \<noteq> None \<and>
        member ''error'' (SuccessEnvelope d m) \<noteq> None)"
    using fb
    by (auto simp: SuccessEnvelope_value member_def simp del: marshalAny.simps(5,6)
        split: option.splits if_splits)
  have a: "d \<noteq> ANil \<and> marshalAny d = Some jd \<and> marshalAny (AMap m) \<noteq> None \<longrightarrow>
      member ''ok'' (SuccessEnvelope d m) = Some (JBool True) \<and>
      member ''data'' (SuccessEnvelope d m) = Some jd \<and>
      member ''error'' (SuccessEnvelope d m) = None"
    by (auto simp: SuccessEnvelope_value member_def simp del: marshalAny.simps(5,6)
        split: option.splits if_splits)
  have n: "d = ANil \<and> marshalAny (AMap m) \<noteq> None \<longrightarrow>
      member ''ok'' (SuccessEnvelope d m) = Some (JBool True) \<and>
      member ''data'' (SuccessEnvelope d m) = None \<and>
      member ''error'' (SuccessEnvelope d m) = None"
    by (auto simp: SuccessEnvelope_value member_def simp del: marshalAny.simps(5,6)
        split: option.splits if_splits)
  have f: "marshalAny d = None \<or> marshalAny (AMap m) = None \<longrightarrow>
      SuccessEnvelope d m = fallbackEnvelope"
    using marshal_empty_map
    by (auto simp: SuccessEnvelope_value simp del: marshalAny.simps(5,6)
        split: option.splits if_splits)
  have e: "member ''ok'' (ErrorEnvelope msg m) = Some (JBool False)"
    "member ''data'' (ErrorEnvelope msg m) = None"
    "member ''error'' (ErrorEnvelope msg m) \<noteq> None"
    using ErrorEnvelope_members [of msg m] by auto
  from s a n f fb e show ?thesis by blast
qed

text \<open>
  Claim C7 as stated fails for the nil result: \<open>data\<close> is tagged \<open>omitempty\<close>, so the
  success envelope of a nil result has neither \<open>data\<close> nor \<open>error\<close>.
\<close>

theorem nil_result_envelope_has_neither:
  "SuccessEnvelope ANil [(''tool'', AString ''Fake'')] =
     JObject [(''ok'', JBool True), (''meta'', JObject [(''tool'', JString ''Fake'')])]"
  by code_simp

text \<open>The three kinds of result, and an error envelope, at concrete values.\<close>

theorem envelope_witness:
  "member ''data'' (SuccessEnvelope (AString ''ok'') [(''tool'', AString ''Fake'')]) =
     Some (JString ''ok'') \<and>
   member ''error'' (SuccessEnvelope (AString ''ok'') [(''tool'', AString ''Fake'')]) = None \<and>
   member ''data'' (SuccessEnvelope ANil [(''tool'', AString ''Fake'')]) = None \<and>
   member ''error'' (SuccessEnvelope ANil [(''tool'', AString ''Fake'')]) = None \<and>
   SuccessEnvelope AUnencodable [(''tool'', AString ''Fake'')] = fallbackEnvelope \<and>
   member ''error'' (ErrorEnvelope ''boom'' [(''tool'', AString ''Fake'')]) \<noteq> None"
  using envelope_ok_and_one_of_data_error
      [of "AString ''ok''" "[(''tool'', AString ''Fake'')]" "JString ''ok''" "''boom''"]
    envelope_ok_and_one_of_data_error
      [of ANil "[(''tool'', AString ''Fake'')]" JNull "''boom''"]
    envelope_ok_and_one_of_data_error
      [of AUnencodable "[(''tool'', AString ''Fake'')]" JNull "''boom''"]
  by simp









section \<open>Path confinement: proofs\<close>

lemma splitSlash_nonempty [simp]: "splitSlash s \<noteq> []"
  by (induction s) (auto split: list.splits)

lemma splitSlash_noslash: "CHR ''/'' \<notin> set e \<Longrightarrow> splitSlash e = [e]"
  by (induction e) auto

lemma splitSlash_append_slash:
  "CHR ''/'' \<notin> set e \<Longrightarrow> splitSlash (e @ CHR ''/'' # s) = e # splitSlash s"
  by (induction e) (auto split: list.splits)

lemma splitSlash_joinSlash:
  "es \<noteq> [] \<Longrightarrow> (\<And>e. e \<in> set es \<Longrightarrow> CHR ''/'' \<notin> set e) \<Longrightarrow> splitSlash (joinSlash es) = es"
proof (induction es rule: joinSlash.induct)
  case 1
  then show ?case by simp
next
  case (2 x)
  then show ?case by (simp add: splitSlash_noslash)
next
  case (3 x y ys)
  then show ?case by (simp add: splitSlash_append_slash)
qed

lemma splitSlash_elements_noslash: "e \<in> set (splitSlash s) \<Longrightarrow> CHR ''/'' \<notin> set e"
  by (induction s arbitrary: e) (auto split: if_splits list.splits)

lemma joinSlash_splitSlash: "joinSlash (splitSlash s) = s"
proof (induction s)
  case Nil
  show ?case by simp
next
  case (Cons c s)
  show ?case
  proof (cases "c = CHR ''/''")
    case True
    obtain x xs where "splitSlash s = x # xs" by (cases "splitSlash s") auto
    with True Cons show ?thesis by simp
  next
    case False
    obtain x xs where x: "splitSlash s = x # xs" by (cases "splitSlash s") auto
    with False Cons show ?thesis by (cases xs) auto
  qed
qed

lemma splitSlash_rooted:
  "list_all nameOK cs \<Longrightarrow> splitSlash (rooted cs) = [] # (if cs = [] then [''''] else cs)"
  by (auto simp: rooted_def list_all_iff nameOK_def splitSlash_joinSlash)

lemma elements_rooted: "list_all nameOK cs \<Longrightarrow> elements (rooted cs) = cs"
  by (auto simp: elements_def splitSlash_rooted list_all_iff nameOK_def filter_id_conv)

lemma IsAbs_rooted [simp]: "IsAbs (rooted cs)"
  by (simp add: IsAbs_def rooted_def)

lemma rooted_not_empty [simp]: "rooted cs \<noteq> []"
  by (simp add: rooted_def)

lemma cleanStep_plain: "nameOK e \<Longrightarrow> cleanStep r out e = out @ [e]"
  by (simp add: cleanStep_def nameOK_def)

lemma foldl_cleanStep_plain: "list_all nameOK cs \<Longrightarrow> foldl (cleanStep r) out cs = out @ cs"
  by (induction cs arbitrary: out) (simp_all add: cleanStep_plain)

lemma cleanStep_empty [simp]: "cleanStep r out '''' = out"
  by (simp add: cleanStep_def)

lemma Clean_rooted: "list_all nameOK cs \<Longrightarrow> Clean (rooted cs) = rooted cs"
  by (cases "cs = []")
     (simp_all add: Clean_def splitSlash_rooted foldl_cleanStep_plain Let_def, simp_all add: rooted_def)

lemma rooted_inject:
  "list_all nameOK cs \<Longrightarrow> list_all nameOK ds \<Longrightarrow> rooted cs = rooted ds \<Longrightarrow> cs = ds"
  by (metis elements_rooted)

lemma cleanStep_rooted_ok:
  "list_all nameOK out \<Longrightarrow> CHR ''/'' \<notin> set e \<Longrightarrow> list_all nameOK (cleanStep True out e)"
  by (auto simp: cleanStep_def list_all_iff nameOK_def dest: in_set_butlastD)

lemma foldl_cleanStep_ok:
  "list_all nameOK out \<Longrightarrow> (\<And>e. e \<in> set es \<Longrightarrow> CHR ''/'' \<notin> set e) \<Longrightarrow>
   list_all nameOK (foldl (cleanStep True) out es)"
  by (induction es arbitrary: out) (simp_all add: cleanStep_rooted_ok)

lemma Clean_abs_canonical: "IsAbs p \<Longrightarrow> canonical (Clean p)"
proof -
  assume a: "IsAbs p"
  then have ne: "p \<noteq> []" by (simp add: IsAbs_def)
  have "list_all nameOK (foldl (cleanStep True) [] (splitSlash p))"
    by (rule foldl_cleanStep_ok) (simp_all add: splitSlash_elements_noslash)
  with a ne show ?thesis
    by (auto simp: canonical_def Clean_def Let_def rooted_def)
qed

lemma canonical_Clean: "canonical p \<Longrightarrow> Clean p = p"
  by (auto simp: canonical_def Clean_rooted)

lemma canonical_IsAbs: "canonical p \<Longrightarrow> IsAbs p"
  by (auto simp: canonical_def)

lemma canonical_iff: "canonical p \<longleftrightarrow> IsAbs p \<and> Clean p = p"
  using Clean_abs_canonical canonical_Clean canonical_IsAbs by metis

lemma canonical_rooted_elements: "canonical p \<Longrightarrow> p = rooted (elements p) \<and> list_all nameOK (elements p)"
  by (auto simp: canonical_def elements_rooted)

lemma joinSlash_snoc: "init \<noteq> [] \<Longrightarrow> joinSlash (init @ [l]) = joinSlash init @ ''/'' @ l"
  by (induction init rule: joinSlash.induct) simp_all

lemma splitSlash_snoc_slash: "splitSlash (s @ ''/'') = splitSlash s @ ['''']"
  by (induction s) (auto split: list.splits)

lemma dropWhile_rev_name:
  "CHR ''/'' \<notin> set l \<Longrightarrow> rev (dropWhile (\<lambda>c. c \<noteq> CHR ''/'') (rev (s @ ''/'' @ l))) = s @ ''/''"
  by (auto simp: dropWhile_append3)

lemma Clean_rooted_slash:
  assumes "list_all nameOK cs" "cs \<noteq> []"
  shows "Clean (rooted cs @ ''/'') = rooted cs"
proof -
  have "splitSlash (rooted cs @ ''/'') = ([] # cs) @ ['''']"
    using assms by (simp add: splitSlash_snoc_slash splitSlash_rooted)
  then have "foldl (cleanStep True) [] (splitSlash (rooted cs @ ''/'')) = cs"
    using assms by (simp add: foldl_cleanStep_plain)
  then show ?thesis by (simp add: Clean_def IsAbs_def rooted_def)
qed

lemma Dir_rooted: "list_all nameOK cs \<Longrightarrow> Dir (rooted cs) = rooted (butlast cs)"
proof (cases cs rule: rev_cases)
  case Nil
  then have "rooted cs = ''/''" by (simp add: rooted_def)
  then show ?thesis using Nil by (simp add: Dir_def Clean_def IsAbs_def rooted_def cleanStep_def)
next
  case (snoc init l)
  assume ok: "list_all nameOK cs"
  with snoc have l: "CHR ''/'' \<notin> set l" and init: "list_all nameOK init"
    by (simp_all add: nameOK_def)
  show ?thesis
  proof (cases "init = []")
    case True
    with snoc have "rooted cs = [] @ ''/'' @ l" by (simp add: rooted_def)
    then have "rev (dropWhile (\<lambda>c. c \<noteq> CHR ''/'') (rev (rooted cs))) = ''/''"
      using dropWhile_rev_name [OF l, of "[]"] by simp
    with True snoc show ?thesis
      by (simp add: Dir_def Clean_def IsAbs_def rooted_def cleanStep_def)
  next
    case False
    with snoc have "rooted cs = rooted init @ ''/'' @ l"
      by (simp add: rooted_def joinSlash_snoc)
    then have "rev (dropWhile (\<lambda>c. c \<noteq> CHR ''/'') (rev (rooted cs))) = rooted init @ ''/''"
      using dropWhile_rev_name [OF l, of "rooted init"] by simp
    with False init snoc show ?thesis by (simp add: Dir_def Clean_rooted_slash)
  qed
qed

lemma commonPrefix_take:
  "take (commonPrefix xs ys) xs = take (commonPrefix xs ys) ys \<and> commonPrefix xs ys \<le> length xs
   \<and> commonPrefix xs ys \<le> length ys"
  by (induction xs ys rule: commonPrefix.induct) auto

lemma commonPrefix_full: "commonPrefix xs ys = length xs \<longleftrightarrow> prefix xs ys"
  by (induction xs ys rule: commonPrefix.induct) auto

lemma commonPrefix_prefix: "commonPrefix xs (xs @ ys) = length xs"
  by (simp add: commonPrefix_full)

lemma Rel_rooted:
  assumes "list_all nameOK bs" "list_all nameOK ts"
  shows "Rel (rooted bs) (rooted ts) =
     Inr (if ts = bs then ''.''
          else joinSlash (replicate (length bs - commonPrefix bs ts) ''..'' @
                          drop (commonPrefix bs ts) ts))"
proof (cases "ts = bs")
  case True
  then show ?thesis by (simp add: Rel_def)
next
  case False
  have neq: "rooted ts \<noteq> rooted bs" using False assms rooted_inject by blast
  have dot: "rooted bs \<noteq> ''.''" by (simp add: rooted_def)
  have hd: "drop (commonPrefix bs ts) bs \<noteq> [] \<Longrightarrow> hd (drop (commonPrefix bs ts) bs) \<noteq> ''..''"
  proof -
    assume "drop (commonPrefix bs ts) bs \<noteq> []"
    then have "hd (drop (commonPrefix bs ts) bs) \<in> set bs"
      by (metis hd_in_set in_set_dropD)
    with assms(1) show ?thesis by (auto simp: list_all_iff nameOK_def)
  qed
  show ?thesis
    using assms neq dot False hd
    by (auto simp: Rel_def Clean_rooted elements_rooted Let_def)
qed

lemma joinSlash_Cons: "joinSlash (x # rest) = (if rest = [] then x else x @ ''/'' @ joinSlash rest)"
  by (cases rest) simp_all

lemma joinSlash_append:
  "rs \<noteq> [] \<Longrightarrow> t \<noteq> [] \<Longrightarrow> joinSlash (rs @ t) = joinSlash rs @ ''/'' @ joinSlash t"
  by (induction rs rule: joinSlash.induct) (simp_all add: joinSlash_Cons)

lemma escapes_dotdot:
  "joinSlash (''..'' # rest) = ''..'' \<or> prefix ''../'' (joinSlash (''..'' # rest))"
  by (simp add: joinSlash_Cons)

lemma name_not_escape:
  assumes "nameOK e"
  shows "joinSlash (e # rest) \<noteq> ''..'' \<and> \<not> prefix ''../'' (joinSlash (e # rest))"
proof (cases e)
  case Nil
  with assms show ?thesis by (simp add: nameOK_def)
next
  case (Cons a e1)
  show ?thesis
  proof (cases e1)
    case Nil
    with Cons assms show ?thesis by (auto simp: nameOK_def joinSlash_Cons)
  next
    case (Cons b e2)
    show ?thesis
    proof (cases e2)
      case Nil
      with Cons \<open>e = a # e1\<close> assms show ?thesis by (auto simp: nameOK_def joinSlash_Cons)
    next
      case (Cons c e3)
      with \<open>e1 = b # e2\<close> \<open>e = a # e1\<close> assms show ?thesis
        by (auto simp: nameOK_def joinSlash_Cons)
    qed
  qed
qed

lemma escape_test:
  assumes "list_all nameOK bs" "list_all nameOK ts"
  shows "Rel (rooted bs) (rooted ts) = Inr rel \<Longrightarrow>
         (rel = ''..'' \<or> prefix ''../'' rel) \<longleftrightarrow> \<not> prefix bs ts"
proof -
  assume r: "Rel (rooted bs) (rooted ts) = Inr rel"
  let ?n = "commonPrefix bs ts"
  show ?thesis
  proof (cases "ts = bs")
    case True
    with r assms have "rel = ''.''" by (simp add: Rel_rooted)
    with True show ?thesis by simp
  next
    case False
    with r assms have rel: "rel = joinSlash (replicate (length bs - ?n) ''..'' @ drop ?n ts)"
      by (simp add: Rel_rooted)
    show ?thesis
    proof (cases "prefix bs ts")
      case True
      then have n: "?n = length bs" by (simp add: commonPrefix_full)
      from True False obtain e es where d: "drop (length bs) ts = e # es"
        by (cases "drop (length bs) ts") (auto simp: prefix_def)
      then have "e \<in> set ts" by (metis in_set_dropD list.set_intros(1))
      with assms(2) have "nameOK e" by (simp add: list_all_iff)
      with rel n d True show ?thesis using name_not_escape by simp
    next
      case False
      then have "?n \<noteq> length bs" by (simp add: commonPrefix_full)
      moreover have "?n \<le> length bs" using commonPrefix_take by blast
      ultimately obtain k where "length bs - ?n = Suc k" by (cases "length bs - ?n") auto
      with rel False show ?thesis using escapes_dotdot by simp
    qed
  qed
qed

lemma splitSlash_snoc: "CHR ''/'' \<notin> set e \<Longrightarrow> splitSlash (s @ CHR ''/'' # e) = splitSlash s @ [e]"
  by (induction s) (auto simp: splitSlash_noslash split: list.splits)

lemma foldl_cleanStep_rooted_plain:
  "list_all nameOK cs \<Longrightarrow> foldl (cleanStep True) [] ([] # cs) = cs"
  by (simp add: foldl_cleanStep_plain)

lemma Join_dot:
  assumes "list_all nameOK rs"
  shows "Clean (Join (rooted rs) ''.'') = rooted rs"
proof -
  have "splitSlash (rooted rs @ ''/.'') = splitSlash (rooted rs) @ [''.'']"
    using splitSlash_snoc [of "''.''" "rooted rs"] by simp
  then have "foldl (cleanStep True) [] (splitSlash (rooted rs @ ''/.'')) = rs"
    using assms by (simp add: splitSlash_rooted foldl_cleanStep_plain cleanStep_def)
  then have "Clean (rooted rs @ ''/.'') = rooted rs"
    by (simp add: Clean_def IsAbs_def rooted_def)
  then show ?thesis using assms by (simp add: Join_def Clean_rooted)
qed

lemma Join_names:
  assumes "list_all nameOK rs" "list_all nameOK t" "t \<noteq> []"
  shows "Clean (Join (rooted rs) (joinSlash t)) = rooted (rs @ t)"
proof -
  have ok: "list_all nameOK (rs @ t)" using assms by simp
  have "Clean (rooted rs @ ''/'' @ joinSlash t) = rooted (rs @ t)"
  proof (cases "rs = []")
    case True
    have "splitSlash (''//'' @ joinSlash t) = [] # [] # t"
      using assms by (simp add: splitSlash_joinSlash list_all_iff nameOK_def)
    then have "foldl (cleanStep True) [] (splitSlash (''//'' @ joinSlash t)) = t"
      using assms by (simp add: foldl_cleanStep_plain)
    with True show ?thesis by (simp add: Clean_def IsAbs_def rooted_def)
  next
    case False
    then have "rooted rs @ ''/'' @ joinSlash t = rooted (rs @ t)"
      using assms(3) by (simp add: rooted_def joinSlash_append)
    with ok show ?thesis by (simp add: Clean_rooted)
  qed
  then show ?thesis using ok by (simp add: Join_def Clean_rooted)
qed

lemma rooted_snoc_neq: "list_all nameOK (init @ [l]) \<Longrightarrow> rooted init \<noteq> rooted (init @ [l])"
proof
  assume ok: "list_all nameOK (init @ [l])" and eq: "rooted init = rooted (init @ [l])"
  from ok have "list_all nameOK init" by simp
  then have "init = init @ [l]" using ok eq by (rule rooted_inject)
  then show False by simp
qed

lemma ancestorDepth_Some:
  "ancestorDepth stat cs = Some k \<Longrightarrow>
   k \<le> length cs \<and> stat (rooted (take k cs)) \<noteq> Some ErrNotExist"
proof -
  assume "ancestorDepth stat cs = Some k"
  then have f: "find (\<lambda>k. stat (rooted (take k cs)) \<noteq> Some ErrNotExist)
                  (rev [0..<Suc (length cs)]) = Some k"
    by (simp only: ancestorDepth_def)
  then obtain i where i: "i < length (rev [0..<Suc (length cs)])"
      "stat (rooted (take (rev [0..<Suc (length cs)] ! i) cs)) \<noteq> Some ErrNotExist"
      "k = rev [0..<Suc (length cs)] ! i"
    unfolding find_Some_iff by blast
  from i(1) have "rev [0..<Suc (length cs)] ! i \<in> set (rev [0..<Suc (length cs)])"
    by (rule nth_mem)
  with i(3) have "k \<in> set [0..<Suc (length cs)]" by (simp only: set_rev)
  then have "k \<le> length cs" by auto
  with i(2,3) show ?thesis by simp
qed

lemma findExistingLoop_rooted:
  "list_all nameOK cs \<Longrightarrow>
   findExistingLoop stat (rooted cs) =
     Some (case ancestorDepth stat cs of
             None \<Rightarrow> Inl NoExistingParent
           | Some k \<Rightarrow>
               (case stat (rooted (take k cs)) of
                  None \<Rightarrow> Inr (rooted (take k cs))
                | Some e \<Rightarrow> Inl (OSError e)))"
proof (induction cs rule: rev_induct)
  case Nil
  show ?case
    by (subst findExistingLoop.simps)
       (auto simp: ancestorDepth_def Dir_rooted Let_def split: option.splits)
next
  case (snoc l init)
  then have init: "list_all nameOK init" by simp
  have dir: "Dir (rooted (init @ [l])) = rooted init"
    using snoc.prems by (simp add: Dir_rooted)
  have neq: "rooted init \<noteq> rooted (init @ [l])" using snoc.prems by (rule rooted_snoc_neq)
  have up: "rev [0..<Suc (length (init @ [l]))] = Suc (length init) # rev [0..<Suc (length init)]"
    by simp
  have same: "find (\<lambda>k. stat (rooted (take k (init @ [l]))) \<noteq> Some ErrNotExist)
                (rev [0..<Suc (length init)]) =
              find (\<lambda>k. stat (rooted (take k init)) \<noteq> Some ErrNotExist)
                (rev [0..<Suc (length init)])"
    by (rule find_cong) auto
  have top: "take (Suc (length init)) (init @ [l]) = init @ [l]" by simp
  have depth: "ancestorDepth stat (init @ [l]) =
               (if stat (rooted (init @ [l])) \<noteq> Some ErrNotExist then Some (Suc (length init))
                else ancestorDepth stat init)"
    unfolding ancestorDepth_def up find.simps top same ..
  show ?case
  proof (cases "stat (rooted (init @ [l]))")
    case None
    then show ?thesis
      by (subst findExistingLoop.simps) (simp add: depth)
  next
    case (Some e)
    show ?thesis
    proof (cases "e = ErrNotExist")
      case False
      with Some show ?thesis
        by (subst findExistingLoop.simps) (simp add: depth)
    next
      case True
      with Some have "findExistingLoop stat (rooted (init @ [l])) =
                      findExistingLoop stat (rooted init)"
        using dir neq by (subst findExistingLoop.simps) (simp add: Let_def)
      also note snoc.IH [OF init]
      finally show ?thesis
        using Some True by (auto simp: depth split: option.splits dest: ancestorDepth_Some)
    qed
  qed
qed

lemma Abs_canonical:
  assumes wb: "wellBehaved os fs" and a: "Abs os fs p = Inr a"
  shows "canonical a"
proof (cases "IsAbs p")
  case True
  with a have "a = Clean p" by (simp add: Abs_def)
  with True show ?thesis by (simp add: Clean_abs_canonical)
next
  case False
  with a obtain wd where wd: "Getwd os fs = Inr wd" and j: "a = Join wd p"
    by (auto simp: Abs_def split: sum.splits)
  from wb wd have abs: "IsAbs wd" by (simp add: wellBehaved_def)
  then have "wd \<noteq> ''''" by (simp add: IsAbs_def)
  with j have "a = Clean (wd @ ''/'' @ p)" by (simp add: Join_def)
  moreover from abs have "IsAbs (wd @ ''/'' @ p)" by (simp add: IsAbs_def)
  ultimately show ?thesis by (simp add: Clean_abs_canonical)
qed

lemma resolveRealPath_spec:
  assumes wb: "wellBehaved os fs" and c: "canonical absPath"
  shows "resolveRealPath os fs absPath = Some (realPathSpec os fs absPath)"
proof -
  define cs where "cs = elements absPath"
  from c have p: "absPath = rooted cs" and ok: "list_all nameOK cs"
    unfolding cs_def by (simp_all add: canonical_rooted_elements)
  have loop: "findExistingParent os fs absPath =
      Some (case ancestorDepth (Lstat os fs) cs of
              None \<Rightarrow> Inl NoExistingParent
            | Some k \<Rightarrow>
                (case Lstat os fs (rooted (take k cs)) of
                   None \<Rightarrow> Inr (rooted (take k cs))
                 | Some e \<Rightarrow> Inl (OSError e)))"
    unfolding findExistingParent_def canonical_Clean [OF c]
    unfolding p by (rule findExistingLoop_rooted [OF ok])
  have join: "Clean (Join realParent remainder) =
              Clean (rooted (elements realParent @ drop k cs))"
    if k: "ancestorDepth (Lstat os fs) cs = Some k"
      and rp: "EvalSymlinks os fs (rooted (take k cs)) = Inr realParent"
      and rel: "Rel (rooted (take k cs)) absPath = Inr remainder"
    for k realParent remainder
  proof -
    from k have le: "k \<le> length cs" by (simp add: ancestorDepth_Some)
    from wb rp have "canonical realParent" unfolding wellBehaved_def using IsAbs_rooted by blast
    then have r: "realParent = rooted (elements realParent)"
      and rok: "list_all nameOK (elements realParent)"
      by (simp_all add: canonical_rooted_elements)
    from ok have tok: "list_all nameOK (take k cs)" and dok: "list_all nameOK (drop k cs)"
      by (simp_all add: list_all_iff) (auto dest: in_set_takeD in_set_dropD)
    have cp: "commonPrefix (take k cs) cs = k"
      using commonPrefix_prefix [of "take k cs" "drop k cs"] le by simp
    have "length (take k cs) - commonPrefix (take k cs) cs = 0" using le by (simp add: cp)
    with rel have rem: "remainder = (if cs = take k cs then ''.'' else joinSlash (drop k cs))"
      unfolding p Rel_rooted [OF tok ok] by (simp only: cp replicate_0 append_Nil) auto
    from rok dok have "list_all nameOK (elements realParent @ drop k cs)" by simp
    then have cl: "Clean (rooted (elements realParent @ drop k cs)) =
                   rooted (elements realParent @ drop k cs)"
      by (rule Clean_rooted)
    show ?thesis
    proof (cases "cs = take k cs")
      case True
      then have "drop k cs = []" using le by (metis append_take_drop_id self_append_conv)
      with True rem r rok cl show ?thesis using Join_dot [OF rok] by simp
    next
      case False
      then have "drop k cs \<noteq> []" by auto
      with False rem r rok dok cl show ?thesis
        using Join_names [OF rok dok] by simp
    qed
  qed
  have relok: "\<exists>remainder. Rel (rooted (take k cs)) absPath = Inr remainder"
    if k: "ancestorDepth (Lstat os fs) cs = Some k" for k
  proof -
    from ok have tok: "list_all nameOK (take k cs)"
      by (simp add: list_all_iff) (auto dest: in_set_takeD)
    show ?thesis unfolding p Rel_rooted [OF tok ok] by simp
  qed
  show ?thesis
  proof (cases "EvalSymlinks os fs absPath")
    case (Inr r)
    then show ?thesis by (simp add: resolveRealPath_def realPathSpec_def)
  next
    case (Inl e)
    show ?thesis
    proof (cases "e = ErrNotExist")
      case False
      with Inl show ?thesis by (simp add: resolveRealPath_def realPathSpec_def)
    next
      case True
      show ?thesis
      proof (cases "ancestorDepth (Lstat os fs) cs")
        case None
        with Inl True loop show ?thesis
          by (simp add: resolveRealPath_def realPathSpec_def cs_def)
      next
        case (Some k)
        show ?thesis
        proof (cases "Lstat os fs (rooted (take k cs))")
          case (Some e')
          with \<open>ancestorDepth (Lstat os fs) cs = Some k\<close> Inl True loop show ?thesis
            by (simp add: resolveRealPath_def realPathSpec_def cs_def [symmetric])
        next
          case None
          show ?thesis
          proof (cases "EvalSymlinks os fs (rooted (take k cs))")
            case (Inl e')
            with None \<open>ancestorDepth (Lstat os fs) cs = Some k\<close>
              \<open>EvalSymlinks os fs absPath = Inl e\<close> True loop show ?thesis
              by (simp add: resolveRealPath_def realPathSpec_def cs_def [symmetric])
          next
            case (Inr realParent)
            from relok [OF Some] obtain remainder
              where rel: "Rel (rooted (take k cs)) absPath = Inr remainder" ..
            from join [OF Some Inr rel] Inr rel None Some
              \<open>EvalSymlinks os fs absPath = Inl e\<close> True loop show ?thesis
              by (simp add: resolveRealPath_def realPathSpec_def cs_def [symmetric])
          qed
        qed
      qed
    qed
  qed
qed

lemma realPathSpec_canonical:
  assumes wb: "wellBehaved os fs" and c: "canonical absPath"
    and r: "realPathSpec os fs absPath = Inr realPath"
  shows "canonical realPath"
proof (cases "EvalSymlinks os fs absPath")
  case (Inr q)
  with r have "realPath = q" by (simp add: realPathSpec_def)
  with wb Inr c show ?thesis unfolding wellBehaved_def using canonical_IsAbs by blast
next
  case (Inl e)
  with r obtain k realParent where
    rp: "EvalSymlinks os fs (rooted (take k (elements absPath))) = Inr realParent"
    and res': "realPath = Clean (rooted (elements realParent @ drop k (elements absPath)))"
    by (auto simp: realPathSpec_def split: if_splits option.splits sum.splits)
  from wb rp have "canonical realParent" unfolding wellBehaved_def using IsAbs_rooted by blast
  then have rok: "list_all nameOK (elements realParent)" by (simp add: canonical_rooted_elements)
  from c have "list_all nameOK (elements absPath)" by (simp add: canonical_rooted_elements)
  then have "list_all nameOK (drop k (elements absPath))"
    by (simp add: list_all_iff) (auto dest: in_set_dropD)
  with rok have all: "list_all nameOK (elements realParent @ drop k (elements absPath))" by simp
  with res' have res: "realPath = rooted (elements realParent @ drop k (elements absPath))"
    by (simp add: Clean_rooted)
  with all show ?thesis unfolding canonical_def by blast
qed

lemma Rel_canonical:
  assumes a: "canonical a" and b: "canonical b"
  shows "\<exists>rel. Rel a b = Inr rel \<and> ((rel = ''..'' \<or> prefix ''../'' rel) \<longleftrightarrow> \<not> inside a b)"
proof -
  from a have a': "a = rooted (elements a)" and aok: "list_all nameOK (elements a)"
    by (simp_all add: canonical_rooted_elements)
  from b have b': "b = rooted (elements b)" and bok: "list_all nameOK (elements b)"
    by (simp_all add: canonical_rooted_elements)
  from Rel_rooted [OF aok bok] obtain rel where rel: "Rel (rooted (elements a)) (rooted (elements b)) = Inr rel"
    by blast
  from escape_test [OF aok bok rel] rel a' b' show ?thesis
    by (simp add: inside_def)
qed

lemma Abs_absolute:
  assumes wb: "wellBehaved os fs" and cl: "lexicallyClean os fs path"
  shows "Abs os fs path = absolute os fs path"
proof (cases "IsAbs path")
  case True
  with cl show ?thesis by (simp add: Abs_def absolute_def lexicallyClean_def)
next
  case rel: False
  show ?thesis
  proof (cases "Getwd os fs")
    case (Inl e)
    with rel show ?thesis by (simp add: Abs_def absolute_def)
  next
    case (Inr wd)
    with wb have "IsAbs wd" by (simp add: wellBehaved_def)
    then have "wd \<noteq> ''''" by (simp add: IsAbs_def)
    then have "Join wd path = Clean (wd @ ''/'' @ path)" by (simp add: Join_def)
    moreover from cl rel Inr have "Clean (wd @ ''/'' @ path) = wd @ ''/'' @ path"
      by (simp add: lexicallyClean_def absolute_def)
    ultimately show ?thesis using rel Inr by (simp add: Abs_def absolute_def)
  qed
qed

lemma ensureSpec_Abs:
  assumes wb: "wellBehaved os fs"
    and clr: "lexicallyClean os fs (TrimSpace (AllowedRoot ctx))"
    and clc: "lexicallyClean os fs candidate"
  shows "ensureSpec os fs ctx candidate =
     (if TrimSpace (AllowedRoot ctx) = '''' then Inl AllowedRootRequired
      else case Abs os fs (TrimSpace (AllowedRoot ctx)) of
        Inl e \<Rightarrow> Inl (ResolveRootFailed e)
      | Inr absRoot \<Rightarrow>
          (case EvalSymlinks os fs absRoot of
             Inl e \<Rightarrow> Inl (EvalRootFailed e)
           | Inr realRoot \<Rightarrow>
               (case Abs os fs candidate of
                  Inl e \<Rightarrow> Inl (ResolvePathFailed e)
                | Inr absPath \<Rightarrow>
                    (case realPathSpec os fs absPath of
                       Inl e \<Rightarrow> Inl (EvalPathFailed e)
                     | Inr realPath \<Rightarrow>
                         if inside realRoot realPath then Inr () else Inl OutsideAllowedRoot))))"
  unfolding ensureSpec_def Abs_absolute [OF wb clr] Abs_absolute [OF wb clc] ..

text \<open>
  On lexically clean paths \<open>filepath.Abs\<close> changes nothing, and the check is the
  specification.
\<close>

lemma EnsurePathAllowed_ensureSpec:
  assumes wb: "wellBehaved os fs"
    and clr: "lexicallyClean os fs (TrimSpace (AllowedRoot ctx))"
    and clc: "lexicallyClean os fs candidate"
  shows "EnsurePathAllowed os fs ctx candidate = Some (ensureSpec os fs ctx candidate)"
proof (cases "TrimSpace (AllowedRoot ctx) = ''''")
  case True
  then show ?thesis by (simp add: EnsurePathAllowed_def ensureSpec_Abs [OF wb clr clc])
next
  case blank: False
  show ?thesis
  proof (cases "Abs os fs (TrimSpace (AllowedRoot ctx))")
    case (Inl e)
    with blank show ?thesis by (simp add: EnsurePathAllowed_def ensureSpec_Abs [OF wb clr clc])
  next
    case absRoot: (Inr absRoot)
    show ?thesis
    proof (cases "EvalSymlinks os fs absRoot")
      case (Inl e)
      with blank absRoot show ?thesis by (simp add: EnsurePathAllowed_def ensureSpec_Abs [OF wb clr clc])
    next
      case realRoot: (Inr realRoot)
      from wb absRoot have "canonical absRoot" by (rule Abs_canonical)
      with wb realRoot have cr: "canonical realRoot"
        unfolding wellBehaved_def using canonical_IsAbs by blast
      show ?thesis
      proof (cases "Abs os fs candidate")
        case (Inl e)
        with blank absRoot realRoot show ?thesis
          by (simp add: EnsurePathAllowed_def ensureSpec_Abs [OF wb clr clc])
      next
        case absPath: (Inr absPath)
        from wb absPath have cp: "canonical absPath" by (rule Abs_canonical)
        note rr = resolveRealPath_spec [OF wb cp]
        show ?thesis
        proof (cases "realPathSpec os fs absPath")
          case (Inl e)
          with blank absRoot realRoot absPath rr show ?thesis
            by (simp add: EnsurePathAllowed_def ensureSpec_Abs [OF wb clr clc])
        next
          case realPath: (Inr realPath)
          from wb cp realPath have "canonical realPath" by (rule realPathSpec_canonical)
          from Rel_canonical [OF cr this] obtain rel where
            "Rel realRoot realPath = Inr rel"
            "(rel = ''..'' \<or> prefix ''../'' rel) \<longleftrightarrow> \<not> inside realRoot realPath"
            by blast
          with blank absRoot realRoot absPath rr realPath show ?thesis
            by (simp add: EnsurePathAllowed_def ensureSpec_Abs [OF wb clr clc])
        qed
      qed
    qed
  qed
qed

lemma nameOK_butlast: "list_all nameOK dest \<Longrightarrow> list_all nameOK (butlast dest)"
  by (auto simp: list_all_iff dest: in_set_butlastD)

lemma walk_names:
  "list_all nameOK dest \<Longrightarrow> (\<And>c. c \<in> set pending \<Longrightarrow> CHR ''/'' \<notin> set c) \<Longrightarrow>
   walk fs links dest pending = Inr d \<Longrightarrow> list_all nameOK d"
proof (induction fs links dest pending rule: walk.induct)
  case (1 fs links dest)
  then show ?case by simp
next
  case (2 fs links dest c rest)
  have rest: "\<And>x. x \<in> set rest \<Longrightarrow> CHR ''/'' \<notin> set x" using "2.prems"(2) by simp
  have c: "CHR ''/'' \<notin> set c" using "2.prems"(2) by simp
  show ?case
  proof (cases "c = '''' \<or> c = ''.''")
    case True
    with "2.prems"(3) have "walk fs links dest rest = Inr d" by auto
    with "2.IH"(1) [OF True "2.prems"(1) rest] show ?thesis by simp
  next
    case plain: False
    show ?thesis
    proof (cases "c = ''..''")
      case True
      with plain "2.prems"(3) have "walk fs links (butlast dest) rest = Inr d" by simp
      with "2.IH"(2) [OF plain True nameOK_butlast [OF "2.prems"(1)] rest] show ?thesis by simp
    next
      case False
      with plain c have ok: "nameOK c" by (simp add: nameOK_def)
      with "2.prems"(1) have ext: "list_all nameOK (dest @ [c])" by simp
      show ?thesis
      proof (cases "lookupNode fs (dest @ [c])")
        case None
        with plain False "2.prems"(3) show ?thesis by simp
      next
        case (Some n)
        show ?thesis
        proof (cases n)
          case Directory
          with Some plain False "2.prems"(3) have "walk fs links (dest @ [c]) rest = Inr d" by simp
          with "2.IH"(3) [OF plain False Some Directory ext rest] show ?thesis by simp
        next
          case (Regular content)
          with Some plain False "2.prems"(3) have "d = dest @ [c]"
            by (simp split: if_splits)
          with ext show ?thesis by simp
        next
          case (Symlink target)
          with Some plain False "2.prems"(3) have l: "links \<noteq> 0"
            and w: "walk fs (links - 1) (if IsAbs target then [] else dest)
                      (splitSlash target @ rest) = Inr d"
            by (simp_all split: if_splits)
          have d0: "list_all nameOK (if IsAbs target then [] else dest)"
            using "2.prems"(1) by simp
          have p0: "\<And>x. x \<in> set (splitSlash target @ rest) \<Longrightarrow> CHR ''/'' \<notin> set x"
            using rest splitSlash_elements_noslash by auto
          from "2.IH"(4) [OF plain False Some Symlink l d0 p0 w] show ?thesis .
        qed
      qed
    qed
  qed
qed

lemma evalSymlinks_canonical: "evalSymlinks fs p = Inr q \<Longrightarrow> canonical q"
proof -
  assume "evalSymlinks fs p = Inr q"
  then obtain d where w: "walk fs 255 [] (splitSlash p) = Inr d" and q: "q = rooted d"
    by (auto simp: evalSymlinks_def split: sum.splits)
  have "list_all nameOK d"
    by (rule walk_names [OF _ _ w]) (simp_all add: splitSlash_elements_noslash)
  with q show ?thesis unfolding canonical_def by blast
qed

lemma unixOS_wellBehaved: "IsAbs wd \<Longrightarrow> wellBehaved (unixOS wd) fs"
  unfolding wellBehaved_def unixOS_def using evalSymlinks_canonical by auto

lemma walk_skip_empty: "walk fs n dest ([] # X) = walk fs n dest X"
  by simp

lemma walk_name:
  "nameOK x \<Longrightarrow> walk fs n dest (x # X) =
     (case lookupNode fs (dest @ [x]) of
        None \<Rightarrow> Inl ErrNotExist
      | Some Directory \<Rightarrow> walk fs n (dest @ [x]) X
      | Some (Regular content) \<Rightarrow>
          if X = [] then Inr (dest @ [x]) else Inl (ErrOther ''not a directory'')
      | Some (Symlink target) \<Rightarrow>
          if n = 0 then Inl (ErrOther ''too many links'')
          else walk fs (n - 1) (if IsAbs target then [] else dest) (splitSlash target @ X))"
  by (simp add: nameOK_def)

lemma walk_dirs:
  "dirsBelow fs dest xs \<Longrightarrow> walk fs n dest (xs @ after) = walk fs n (dest @ xs) after"
proof (induction xs arbitrary: dest)
  case Nil
  show ?case by simp
next
  case (Cons x xs)
  then have x: "nameOK x" and d: "lookupNode fs (dest @ [x]) = Some Directory"
    and rest: "dirsBelow fs (dest @ [x]) xs" by simp_all
  have "walk fs n dest ((x # xs) @ after) = walk fs n (dest @ [x]) (xs @ after)"
    using d by (simp add: walk_name [OF x] del: walk.simps)
  also have "\<dots> = walk fs n ((dest @ [x]) @ xs) after" by (rule Cons.IH [OF rest])
  finally show ?case by simp
qed

lemma dirsBelow_names: "dirsBelow fs dest xs \<Longrightarrow> list_all nameOK xs"
  by (induction xs arbitrary: dest) auto

lemma dirsBelow_lookup:
  "dirsBelow fs dest xs \<Longrightarrow> lookupNode fs dest = Some Directory \<Longrightarrow>
   lookupNode fs (dest @ xs) = Some Directory"
proof (induction xs arbitrary: dest)
  case Nil
  then show ?case by simp
next
  case (Cons x xs)
  from Cons.prems have a: "dirsBelow fs (dest @ [x]) xs"
    and b: "lookupNode fs (dest @ [x]) = Some Directory" by simp_all
  have "lookupNode fs ((dest @ [x]) @ xs) = Some Directory" by (rule Cons.IH [OF a b])
  then show ?case by simp
qed

lemma lookupNode_root: "lookupNode fs [] = Some Directory"
  by (simp add: lookupNode_def)

lemma plainBelow_names: "plainBelow fs dest xs \<Longrightarrow> list_all nameOK xs"
proof (induction xs arbitrary: dest)
  case Nil
  show ?case by simp
next
  case (Cons x xs)
  then show ?case by (auto split: option.splits node.splits)
qed

lemma existingBelow_le: "existingBelow fs dest q \<le> length q"
  by (induction q arbitrary: dest) (auto split: option.splits node.splits)

lemma walk_plain:
  "plainBelow fs dest q \<Longrightarrow> i \<le> length q \<Longrightarrow>
   walk fs n dest (take i q) =
     (if i \<le> existingBelow fs dest q then Inr (dest @ take i q) else Inl ErrNotExist)"
proof (induction q arbitrary: dest i)
  case Nil
  then show ?case by simp
next
  case (Cons x xs)
  show ?case
  proof (cases i)
    case 0
    then show ?thesis by simp
  next
    case (Suc j)
    from Cons.prems have x: "nameOK x" by simp
    from Cons.prems Suc have j: "j \<le> length xs" by simp
    show ?thesis
    proof (cases "lookupNode fs (dest @ [x])")
      case None
      with Suc show ?thesis by (simp add: walk_name [OF x] del: walk.simps)
    next
      case (Some node)
      show ?thesis
      proof (cases node)
        case Directory
        with Some Cons.prems have p: "plainBelow fs (dest @ [x]) xs" by simp
        from Cons.IH [OF p j] Some Directory Suc show ?thesis
          by (simp add: walk_name [OF x] del: walk.simps)
      next
        case (Regular content)
        with Some Cons.prems have "xs = []" by simp
        with Some Regular Suc j show ?thesis by (simp add: walk_name [OF x] del: walk.simps)
      next
        case (Symlink target)
        with Some Cons.prems show ?thesis by simp
      qed
    qed
  qed
qed

lemma plain_lookup:
  "plainBelow fs dest q \<Longrightarrow> m < length q \<Longrightarrow>
   (Suc m \<le> existingBelow fs dest q \<longrightarrow> lookupNode fs (dest @ take (Suc m) q) \<noteq> None) \<and>
   (Suc m \<le> existingBelow fs dest q \<and> Suc m < length q \<longrightarrow>
      lookupNode fs (dest @ take (Suc m) q) = Some Directory) \<and>
   (m = existingBelow fs dest q \<longrightarrow> lookupNode fs (dest @ take (Suc m) q) = None)"
proof (induction q arbitrary: dest m)
  case Nil
  then show ?case by simp
next
  case (Cons x xs)
  show ?case
  proof (cases "lookupNode fs (dest @ [x])")
    case None
    then show ?thesis by (cases m) simp_all
  next
    case (Some node)
    show ?thesis
    proof (cases node)
      case Directory
      with Some Cons.prems have p: "plainBelow fs (dest @ [x]) xs" by simp
      show ?thesis
      proof (cases m)
        case 0
        with Some Directory show ?thesis by simp
      next
        case (Suc j)
        with Cons.prems have j: "j < length xs" by simp
        from Cons.IH [OF p j] Some Directory Suc show ?thesis by simp
      qed
    next
      case (Regular content)
      with Some Cons.prems have "xs = []" by simp
      with Some Regular Cons.prems show ?thesis by simp
    next
      case (Symlink target)
      with Some Cons.prems show ?thesis by simp
    qed
  qed
qed

lemma find_last:
  "k \<le> n \<Longrightarrow> P k \<Longrightarrow> (\<And>j. k < j \<Longrightarrow> j \<le> n \<Longrightarrow> \<not> P j) \<Longrightarrow>
   find P (rev [0..<Suc n]) = Some k"
proof (induction n)
  case 0
  then show ?case by simp
next
  case (Suc n)
  have up: "rev [0..<Suc (Suc n)] = Suc n # rev [0..<Suc n]" by simp
  show ?case
  proof (cases "k = Suc n")
    case True
    with Suc.prems show ?thesis unfolding up by simp
  next
    case False
    with Suc.prems have le: "k \<le> n" and no: "\<not> P (Suc n)" by auto
    have "find P (rev [0..<Suc n]) = Some k"
      by (rule Suc.IH [OF le Suc.prems(2)]) (use Suc.prems(3) in auto)
    with no show ?thesis unfolding up by simp
  qed
qed

lemma ancestorDepth_eq:
  assumes "k \<le> length cs" "stat (rooted (take k cs)) \<noteq> Some ErrNotExist"
    "\<And>j. k < j \<Longrightarrow> j \<le> length cs \<Longrightarrow> stat (rooted (take j cs)) = Some ErrNotExist"
  shows "ancestorDepth stat cs = Some k"
  unfolding ancestorDepth_def
  by (rule find_last [where P = "\<lambda>k. stat (rooted (take k cs)) \<noteq> Some ErrNotExist"])
     (use assms in auto)

lemma throughLink_names:
  assumes "throughLink fs rs l ts rest"
  shows "list_all nameOK rs" "nameOK l" "list_all nameOK ts" "list_all nameOK rest"
  using assms dirsBelow_names [of fs "[]" rs] plainBelow_names [of fs "[]" "ts @ rest"]
  by (simp_all add: throughLink_def)

lemma walk_root_dirs: "dirsBelow fs [] rs \<Longrightarrow> walk fs n [] (rs @ X) = walk fs n rs X"
  using walk_dirs [of fs "[]" rs n X] by simp

lemma walk_link:
  assumes t: "throughLink fs rs l ts rest" and n: "n \<noteq> 0"
  shows "walk fs n [] (rs @ l # X) = walk fs (n - 1) [] (ts @ X)"
proof -
  from t have d: "dirsBelow fs [] rs" and l: "nameOK l"
    and k: "lookupNode fs (rs @ [l]) = Some (Symlink (rooted ts))"
    by (simp_all add: throughLink_def)
  have ts: "list_all nameOK ts" using t by (rule throughLink_names)
  have "walk fs n [] (rs @ l # X) = walk fs n rs (l # X)" using d by (rule walk_root_dirs)
  also have "\<dots> = walk fs (n - 1) [] (splitSlash (rooted ts) @ X)"
    using k n by (simp add: walk_name [OF l] del: walk.simps)
  also have "\<dots> = walk fs (n - 1) [] (ts @ X)"
    by (simp add: splitSlash_rooted [OF ts])
  finally show ?thesis .
qed

lemma eval_root:
  assumes "dirsBelow fs [] rs"
  shows "evalSymlinks fs (rooted rs) = Inr (rooted rs)"
proof -
  have names: "list_all nameOK rs" using assms by (rule dirsBelow_names)
  have "walk fs 255 [] (splitSlash (rooted rs)) = walk fs 255 [] (rs @ [])"
    by (simp add: splitSlash_rooted [OF names])
  also have "\<dots> = Inr rs" using walk_root_dirs [OF assms, of 255 "[]"] by simp
  finally show ?thesis by (simp add: evalSymlinks_def)
qed

lemma eval_link:
  assumes t: "throughLink fs rs l ts rest" and i: "i \<le> length rest"
  shows "evalSymlinks fs (rooted (rs @ l # take i rest)) =
     (if length ts + i \<le> existingBelow fs [] (ts @ rest)
      then Inr (rooted (ts @ take i rest)) else Inl ErrNotExist)"
proof -
  note n = throughLink_names [OF t]
  from n i have names: "list_all nameOK (rs @ l # take i rest)"
    by (auto simp: list_all_iff dest: in_set_takeD)
  from t have p: "plainBelow fs [] (ts @ rest)" by (simp add: throughLink_def)
  have tk: "take (length ts + i) (ts @ rest) = ts @ take i rest" by simp
  have "walk fs 255 [] (splitSlash (rooted (rs @ l # take i rest))) =
        walk fs 255 [] (rs @ l # take i rest)"
    by (simp add: splitSlash_rooted [OF names])
  also have "\<dots> = walk fs 254 [] (ts @ take i rest)"
    using walk_link [OF t, of 255 "take i rest"] by simp
  also have "\<dots> = walk fs 254 [] (take (length ts + i) (ts @ rest))" by (simp only: tk)
  also have "\<dots> = (if length ts + i \<le> existingBelow fs [] (ts @ rest)
                    then Inr ([] @ take (length ts + i) (ts @ rest)) else Inl ErrNotExist)"
    by (rule walk_plain [OF p]) (use i in simp)
  finally show ?thesis by (simp add: evalSymlinks_def tk del: take_append)
qed

lemma lstat_link:
  assumes t: "throughLink fs rs l ts rest"
  shows "lstat fs (rooted (rs @ [l])) = None"
proof -
  note n = throughLink_names [OF t]
  from n have names: "list_all nameOK (rs @ [l])" by simp
  from t have d: "dirsBelow fs [] rs"
    and k: "lookupNode fs (rs @ [l]) = Some (Symlink (rooted ts))"
    by (simp_all add: throughLink_def)
  have w: "walk fs 255 [] rs = Inr rs" using walk_root_dirs [OF d, of 255 "[]"] by simp
  have dir: "lookupNode fs rs = Some Directory"
    using dirsBelow_lookup [OF d lookupNode_root] by simp
  from n(2) have "l \<noteq> ''.''" "l \<noteq> ''..''" by (simp_all add: nameOK_def)
  then show ?thesis
    by (simp add: lstat_def elements_rooted [OF names] w dir k Let_def)
qed

lemma lstat_below:
  assumes t: "throughLink fs rs l ts rest" and i: "0 < i" "i \<le> length rest"
  shows "lstat fs (rooted (rs @ l # take i rest)) =
     (if length ts + i \<le> existingBelow fs [] (ts @ rest) then None else Some ErrNotExist)"
proof -
  note n = throughLink_names [OF t]
  define q where "q = ts @ rest"
  define E where "E = existingBelow fs [] q"
  define m where "m = length ts + i - 1"
  from i have m: "m < length q" "Suc m = length ts + i" by (simp_all add: m_def q_def)
  from t have p: "plainBelow fs [] q" by (simp add: throughLink_def q_def)
  from n i have names: "list_all nameOK (rs @ l # take i rest)"
    by (auto simp: list_all_iff dest: in_set_takeD)
  obtain j where j: "i = Suc j" using i by (cases i) auto
  with i have jl: "j < length rest" by simp
  then have tk: "take i rest = take j rest @ [rest ! j]" by (simp add: j take_Suc_conv_app_nth)
  have lastname: "nameOK (rest ! j)" using n(4) jl by (simp add: list_all_length)
  then have plain: "rest ! j \<noteq> ''.''" "rest ! j \<noteq> ''..''" by (simp_all add: nameOK_def)
  have bl: "butlast (rs @ l # take i rest) = rs @ l # take j rest"
    and la: "last (rs @ l # take i rest) = rest ! j"
    by (simp_all add: tk butlast_append)
  have tm: "take m q = ts @ take j rest" by (simp add: m_def q_def j)
  have tsm: "take (Suc m) q = ts @ take i rest" using m(2) by (simp add: q_def)
  have nxt: "take m q @ [rest ! j] = take (Suc m) q" by (simp add: tm tsm tk)
  have w: "walk fs 255 [] (rs @ l # take j rest) =
           (if m \<le> E then Inr (take m q) else Inl ErrNotExist)"
  proof -
    have "walk fs 255 [] (rs @ l # take j rest) = walk fs 254 [] (ts @ take j rest)"
      using walk_link [OF t, of 255 "take j rest"] by simp
    also have "\<dots> = walk fs 254 [] (take m q)" by (simp only: tm)
    also have "\<dots> = (if m \<le> E then Inr ([] @ take m q) else Inl ErrNotExist)"
      unfolding E_def by (rule walk_plain [OF p]) (use m in simp)
    finally show ?thesis by simp
  qed
  note pl = plain_lookup [OF p m(1), folded E_def, simplified]
  have goal: "(length ts + i \<le> existingBelow fs [] (ts @ rest)) = (Suc m \<le> E)"
    by (simp add: m(2) E_def q_def)
  have unfold: "lstat fs (rooted (rs @ l # take i rest)) =
      (case walk fs 255 [] (rs @ l # take j rest) of
         Inl e \<Rightarrow> Some e
       | Inr dir \<Rightarrow>
           (case lookupNode fs dir of
              Some Directory \<Rightarrow>
                (case lookupNode fs (dir @ [rest ! j]) of
                   None \<Rightarrow> Some ErrNotExist
                 | Some n \<Rightarrow> None)
            | _ \<Rightarrow> Some (ErrOther ''not a directory'')))"
    unfolding lstat_def elements_rooted [OF names] Let_def bl la using plain by simp
  show ?thesis
  proof (cases "m \<le> E")
    case False
    then have "\<not> Suc m \<le> E" by simp
    with False show ?thesis unfolding goal unfold w by simp
  next
    case True
    have dir: "lookupNode fs (take m q) = Some Directory"
    proof (cases m)
      case 0
      then show ?thesis by (simp add: lookupNode_root)
    next
      case (Suc m')
      then have "m' < length q" using m(1) by simp
      from plain_lookup [OF p this, folded E_def] Suc True m(1) show ?thesis by simp
    qed
    show ?thesis
    proof (cases "Suc m \<le> E")
      case yes: True
      with pl have "lookupNode fs (take (Suc m) q) \<noteq> None" by simp
      then obtain node where "lookupNode fs (take (Suc m) q) = Some node" by auto
      with yes True show ?thesis unfolding goal unfold w by (simp add: dir nxt)
    next
      case no: False
      with True have "m = E" by simp
      with pl have "lookupNode fs (take (Suc m) q) = None" by simp
      with no True show ?thesis unfolding goal unfold w by (simp add: dir nxt)
    qed
  qed
qed

lemma lstat_prefix:
  assumes t: "throughLink fs rs l ts rest" and i: "i \<le> length rest"
  shows "lstat fs (rooted (rs @ l # take i rest)) =
     (if i = 0 \<or> length ts + i \<le> existingBelow fs [] (ts @ rest) then None
      else Some ErrNotExist)"
proof (cases "i = 0")
  case True
  then show ?thesis using lstat_link [OF t] by simp
next
  case False
  then have "0 < i" by simp
  from lstat_below [OF t this i] False show ?thesis by simp
qed

lemma take_through:
  "length rs < k \<Longrightarrow> take k (rs @ l # rest) = rs @ l # take (k - Suc (length rs)) rest"
proof -
  assume "length rs < k"
  then obtain j where j: "k = Suc (length rs + j)" by (metis less_iff_Suc_add add_Suc_right)
  then show ?thesis by simp
qed

lemma realPath_link:
  assumes t: "throughLink fs rs l ts rest"
  shows "realPathSpec (unixOS wd) fs (rooted (rs @ l # rest)) =
     (if existingBelow fs [] (ts @ rest) < length ts then Inl (OSError ErrNotExist)
      else Inr (rooted (ts @ rest)))"
proof -
  note n = throughLink_names [OF t]
  define cs where "cs = rs @ l # rest"
  define E where "E = existingBelow fs [] (ts @ rest)"
  from n have names: "list_all nameOK cs" by (simp add: cs_def)
  have el: "elements (rooted cs) = cs" using names by (rule elements_rooted)
  have os: "EvalSymlinks (unixOS wd) = evalSymlinks" "Lstat (unixOS wd) = lstat"
    by (simp_all add: unixOS_def)
  have Ele: "E \<le> length ts + length rest"
    using existingBelow_le [of fs "[]" "ts @ rest"] by (simp add: E_def)
  have whole: "evalSymlinks fs (rooted cs) =
      (if length ts + length rest \<le> E then Inr (rooted (ts @ rest)) else Inl ErrNotExist)"
    using eval_link [OF t, of "length rest"] by (simp add: cs_def E_def)
  show ?thesis
  proof (cases "length ts + length rest \<le> E")
    case True
    with whole show ?thesis
      unfolding cs_def [symmetric] E_def [symmetric] by (simp add: realPathSpec_def os)
  next
    case missing: False
    define i where "i = (if E < length ts then 0 else E - length ts)"
    define k where "k = Suc (length rs) + i"
    from missing Ele have i: "i < length rest \<or> (i = 0 \<and> E < length ts)" "i \<le> length rest"
      by (auto simp: i_def)
    have k: "k \<le> length cs" "length rs < k" using i by (simp_all add: k_def cs_def)
    have tk: "take k cs = rs @ l # take i rest"
      unfolding cs_def using take_through [OF k(2), of l rest] by (simp add: k_def)
    have here: "lstat fs (rooted (take k cs)) = None"
      unfolding tk using lstat_prefix [OF t i(2)] by (auto simp: i_def E_def)
    have above: "lstat fs (rooted (take j cs)) = Some ErrNotExist"
      if "k < j" "j \<le> length cs" for j
    proof -
      from that k have lt: "length rs < j" by simp
      define i' where "i' = j - Suc (length rs)"
      from that have i': "i' \<le> length rest" "i < i'" by (simp_all add: i'_def cs_def k_def)
      have "take j cs = rs @ l # take i' rest"
        unfolding cs_def i'_def by (rule take_through [OF lt])
      moreover from i' have "\<not> (i' = 0 \<or> length ts + i' \<le> E)" by (auto simp: i_def split: if_splits)
      ultimately show ?thesis using lstat_prefix [OF t i'(1)] by (simp add: E_def)
    qed
    have depth: "ancestorDepth (lstat fs) cs = Some k"
      by (rule ancestorDepth_eq [OF k(1)]) (simp_all add: here above)
    have parent: "evalSymlinks fs (rooted (take k cs)) =
        (if E < length ts then Inl ErrNotExist else Inr (rooted (ts @ take i rest)))"
      unfolding tk using eval_link [OF t i(2)] by (auto simp: i_def E_def)
    have dr: "drop k cs = drop i rest" by (simp add: cs_def k_def)
    show ?thesis
    proof (cases "E < length ts")
      case True
      with missing whole depth here parent show ?thesis
        unfolding cs_def [symmetric] E_def [symmetric]
        by (simp add: realPathSpec_def os el)
    next
      case False
      from n have tn: "list_all nameOK (ts @ take i rest)"
        by (auto simp: list_all_iff dest: in_set_takeD)
      from n have all: "list_all nameOK (ts @ rest)" by simp
      have "Clean (rooted (elements (rooted (ts @ take i rest)) @ drop k cs)) =
            rooted (ts @ rest)"
        by (simp add: elements_rooted [OF tn] dr Clean_rooted [OF all])
      with False missing whole depth here parent show ?thesis
        unfolding cs_def [symmetric] E_def [symmetric]
        by (simp add: realPathSpec_def os el)
    qed
  qed
qed

lemma absolute_rooted: "absolute os fs (rooted cs) = Inr (rooted cs)"
  by (simp add: absolute_def)

lemma lexicallyClean_rooted: "list_all nameOK cs \<Longrightarrow> lexicallyClean os fs (rooted cs)"
  by (simp add: lexicallyClean_def absolute_rooted Clean_rooted)

lemma inside_rooted:
  "list_all nameOK rs \<Longrightarrow> list_all nameOK qs \<Longrightarrow> inside (rooted rs) (rooted qs) = prefix rs qs"
  by (simp add: inside_def elements_rooted)

text \<open>
  The check on a path through a link, for every tree: with a target that does not exist
  the resolution of the link fails; otherwise the real path is the target followed by the
  rest of the path.
\<close>

lemma link_confinement:
  assumes wd: "IsAbs wd" and root: "TrimSpace (AllowedRoot ctx) = rooted rs"
    and t: "throughLink fs rs l ts rest"
  shows "EnsurePathAllowed (unixOS wd) fs ctx (rooted (rs @ l # rest)) =
     Some (if existingBelow fs [] (ts @ rest) < length ts
           then Inl (EvalPathFailed (OSError ErrNotExist))
           else if prefix rs (ts @ rest) then Inr () else Inl OutsideAllowedRoot)"
proof -
  note n = throughLink_names [OF t]
  from n have names: "list_all nameOK (rs @ l # rest)" and all: "list_all nameOK (ts @ rest)"
    by simp_all
  from t have d: "dirsBelow fs [] rs" by (simp add: throughLink_def)
  have wb: "wellBehaved (unixOS wd) fs" using wd by (rule unixOS_wellBehaved)
  have clr: "lexicallyClean (unixOS wd) fs (TrimSpace (AllowedRoot ctx))"
    unfolding root using n(1) by (rule lexicallyClean_rooted)
  have clc: "lexicallyClean (unixOS wd) fs (rooted (rs @ l # rest))"
    using names by (rule lexicallyClean_rooted)
  have os: "EvalSymlinks (unixOS wd) = evalSymlinks" by (simp add: unixOS_def)
  have "EnsurePathAllowed (unixOS wd) fs ctx (rooted (rs @ l # rest)) =
        Some (ensureSpec (unixOS wd) fs ctx (rooted (rs @ l # rest)))"
    using wb clr clc by (rule EnsurePathAllowed_ensureSpec)
  also have "ensureSpec (unixOS wd) fs ctx (rooted (rs @ l # rest)) =
     (if existingBelow fs [] (ts @ rest) < length ts
      then Inl (EvalPathFailed (OSError ErrNotExist))
      else if prefix rs (ts @ rest) then Inr () else Inl OutsideAllowedRoot)"
    unfolding ensureSpec_def root absolute_rooted
    by (simp add: os eval_root [OF d] realPath_link [OF t] inside_rooted [OF n(1) all])
  finally show ?thesis .
qed

lemma lexicallyClean_canonical:
  "lexicallyClean os fs path \<Longrightarrow> absolute os fs path = Inr p \<Longrightarrow> canonical p"
  by (simp add: lexicallyClean_def canonical_iff)

lemma ensureSpec_computed:
  assumes "TrimSpace (AllowedRoot ctx) \<noteq> ''''"
    "absolute os fs (TrimSpace (AllowedRoot ctx)) = Inr absRoot"
    "EvalSymlinks os fs absRoot = Inr realRoot"
    "absolute os fs candidate = Inr absPath"
    "realPathSpec os fs absPath = Inr realPath"
  shows "ensureSpec os fs ctx candidate =
         (if inside realRoot realPath then Inr () else Inl OutsideAllowedRoot)"
  using assms by (simp add: ensureSpec_def)

lemma relative_path_test:
  assumes wb: "wellBehaved os fs"
    and clr: "lexicallyClean os fs (TrimSpace (AllowedRoot ctx))"
    and clc: "lexicallyClean os fs candidate"
    and h1: "TrimSpace (AllowedRoot ctx) \<noteq> ''''"
    and h2: "absolute os fs (TrimSpace (AllowedRoot ctx)) = Inr absRoot"
    and h3: "EvalSymlinks os fs absRoot = Inr realRoot"
    and h4: "absolute os fs candidate = Inr absPath"
    and h5: "realPathSpec os fs absPath = Inr realPath"
  shows "\<exists>rel. Rel realRoot realPath = Inr rel \<and>
          ((rel = ''..'' \<or> prefix ''../'' rel) \<longleftrightarrow> \<not> inside realRoot realPath) \<and>
          (EnsurePathAllowed os fs ctx candidate = Some (Inl OutsideAllowedRoot) \<longleftrightarrow>
             rel = ''..'' \<or> prefix ''../'' rel) \<and>
          (EnsurePathAllowed os fs ctx candidate = Some (Inr ()) \<longleftrightarrow>
             \<not> (rel = ''..'' \<or> prefix ''../'' rel))"
proof -
  have eq: "EnsurePathAllowed os fs ctx candidate = Some (ensureSpec os fs ctx candidate)"
    using wb clr clc by (rule EnsurePathAllowed_ensureSpec)
  have sp: "ensureSpec os fs ctx candidate =
         (if inside realRoot realPath then Inr () else Inl OutsideAllowedRoot)"
    using h1 h2 h3 h4 h5 by (rule ensureSpec_computed)
  from clr h2 have "canonical absRoot" by (rule lexicallyClean_canonical)
  with wb h3 have cr: "canonical realRoot"
    unfolding wellBehaved_def using canonical_IsAbs by blast
  from clc h4 have "canonical absPath" by (rule lexicallyClean_canonical)
  with wb have cp: "canonical realPath" using h5 by (rule realPathSpec_canonical)
  from Rel_canonical [OF cr cp] obtain rel where
    rel: "Rel realRoot realPath = Inr rel"
      "(rel = ''..'' \<or> prefix ''../'' rel) \<longleftrightarrow> \<not> inside realRoot realPath"
    by blast
  show ?thesis
  proof (intro exI conjI)
    show "Rel realRoot realPath = Inr rel" by (rule rel(1))
    show "(rel = ''..'' \<or> prefix ''../'' rel) \<longleftrightarrow> \<not> inside realRoot realPath" by (rule rel(2))
    show "EnsurePathAllowed os fs ctx candidate = Some (Inl OutsideAllowedRoot) \<longleftrightarrow>
             rel = ''..'' \<or> prefix ''../'' rel"
      unfolding eq sp rel(2) by simp
    show "EnsurePathAllowed os fs ctx candidate = Some (Inr ()) \<longleftrightarrow>
             \<not> (rel = ''..'' \<or> prefix ''../'' rel)"
      unfolding eq sp rel(2) by simp
  qed
qed

text \<open>
  Claim C1, as amended. Let the allowed root and the candidate be lexically clean once
  made absolute, on an operating system whose \<open>EvalSymlinks\<close> returns absolute, clean
  paths and whose working directory is absolute. Then \<open>EnsurePathAllowed\<close> always
  returns, and its result is that of \<open>ensureSpec\<close>: it accepts exactly when the allowed
  root is not blank, the real root and the real path of the candidate can both be
  computed, and the real path lies inside or equals the real root. The real path is the
  full symlink resolution when that succeeds and, when the path does not exist, the
  resolution of the deepest ancestor that \<open>Lstat\<close> finds, followed by the elements below
  it; an ancestor that cannot be resolved is an error. Whenever both real paths are
  computed, the relative path from the real root to the real path exists, it is \<open>..\<close> or
  begins with \<open>../\<close> exactly when the real path is not inside the real root, and
  \<open>EnsurePathAllowed\<close> rejects with the outside-root error exactly in that case and
  accepts otherwise. On every Unix tree, for every path that leads through a link in the
  root directory to an absolute target and from there over plain names: when the target
  does not exist the path is rejected, and when it exists the path is accepted exactly
  when the file it reaches (the target followed by the rest of the path, existing or not)
  lies inside the root.
\<close>

theorem path_confinement:
  "(wellBehaved os fs \<and> lexicallyClean os fs (TrimSpace (AllowedRoot ctx)) \<and>
    lexicallyClean os fs candidate \<longrightarrow>
      EnsurePathAllowed os fs ctx candidate = Some (ensureSpec os fs ctx candidate) \<and>
      (\<forall>absRoot realRoot absPath realPath.
         TrimSpace (AllowedRoot ctx) \<noteq> '''' \<and>
         absolute os fs (TrimSpace (AllowedRoot ctx)) = Inr absRoot \<and>
         EvalSymlinks os fs absRoot = Inr realRoot \<and>
         absolute os fs candidate = Inr absPath \<and>
         realPathSpec os fs absPath = Inr realPath \<longrightarrow>
         (\<exists>rel. Rel realRoot realPath = Inr rel \<and>
            ((rel = ''..'' \<or> prefix ''../'' rel) \<longleftrightarrow> \<not> inside realRoot realPath) \<and>
            (EnsurePathAllowed os fs ctx candidate = Some (Inl OutsideAllowedRoot) \<longleftrightarrow>
               rel = ''..'' \<or> prefix ''../'' rel) \<and>
            (EnsurePathAllowed os fs ctx candidate = Some (Inr ()) \<longleftrightarrow>
               \<not> (rel = ''..'' \<or> prefix ''../'' rel))))) \<and>
   (IsAbs wd \<and> TrimSpace (AllowedRoot linkContext) = rooted rs \<and>
    throughLink tree rs l ts rest \<longrightarrow>
      EnsurePathAllowed (unixOS wd) tree linkContext (rooted (rs @ l # rest)) =
        Some (if existingBelow tree [] (ts @ rest) < length ts
              then Inl (EvalPathFailed (OSError ErrNotExist))
              else if prefix rs (ts @ rest) then Inr () else Inl OutsideAllowedRoot))"
proof (intro conjI impI allI)
  assume h: "wellBehaved os fs \<and> lexicallyClean os fs (TrimSpace (AllowedRoot ctx)) \<and>
    lexicallyClean os fs candidate"
  then have wb: "wellBehaved os fs"
    and clr: "lexicallyClean os fs (TrimSpace (AllowedRoot ctx))"
    and clc: "lexicallyClean os fs candidate" by blast+
  show "EnsurePathAllowed os fs ctx candidate = Some (ensureSpec os fs ctx candidate)"
    using wb clr clc by (rule EnsurePathAllowed_ensureSpec)
  fix absRoot realRoot absPath realPath
  assume c: "TrimSpace (AllowedRoot ctx) \<noteq> '''' \<and>
         absolute os fs (TrimSpace (AllowedRoot ctx)) = Inr absRoot \<and>
         EvalSymlinks os fs absRoot = Inr realRoot \<and>
         absolute os fs candidate = Inr absPath \<and>
         realPathSpec os fs absPath = Inr realPath"
  then have h1: "TrimSpace (AllowedRoot ctx) \<noteq> ''''"
    and h2: "absolute os fs (TrimSpace (AllowedRoot ctx)) = Inr absRoot"
    and h3: "EvalSymlinks os fs absRoot = Inr realRoot"
    and h4: "absolute os fs candidate = Inr absPath"
    and h5: "realPathSpec os fs absPath = Inr realPath"
    by blast+
  show "\<exists>rel. Rel realRoot realPath = Inr rel \<and>
            ((rel = ''..'' \<or> prefix ''../'' rel) \<longleftrightarrow> \<not> inside realRoot realPath) \<and>
            (EnsurePathAllowed os fs ctx candidate = Some (Inl OutsideAllowedRoot) \<longleftrightarrow>
               rel = ''..'' \<or> prefix ''../'' rel) \<and>
            (EnsurePathAllowed os fs ctx candidate = Some (Inr ()) \<longleftrightarrow>
               \<not> (rel = ''..'' \<or> prefix ''../'' rel))"
    using wb clr clc h1 h2 h3 h4 h5 by (rule relative_path_test)
next
  assume h: "IsAbs wd \<and> TrimSpace (AllowedRoot linkContext) = rooted rs \<and>
    throughLink tree rs l ts rest"
  then have wd: "IsAbs wd" and root: "TrimSpace (AllowedRoot linkContext) = rooted rs"
    and t: "throughLink tree rs l ts rest" by blast+
  show "EnsurePathAllowed (unixOS wd) tree linkContext (rooted (rs @ l # rest)) =
        Some (if existingBelow tree [] (ts @ rest) < length ts
              then Inl (EvalPathFailed (OSError ErrNotExist))
              else if prefix rs (ts @ rest) then Inr () else Inl OutsideAllowedRoot)"
    using wd root t by (rule link_confinement)
qed

lemma work_abs: "IsAbs ''/work''"
  by (simp add: IsAbs_def)

lemma work_root: "TrimSpace (AllowedRoot workContext) = rooted [''work'']"
  by code_simp

lemma work_clean:
  "lexicallyClean (unixOS ''/work'') exampleTree (TrimSpace (AllowedRoot workContext)) \<and>
   lexicallyClean (unixOS ''/work'') exampleTree ''/work/link-in/ok.txt''"
  by code_simp

lemma link_in_accepted:
  "EnsurePathAllowed (unixOS ''/work'') exampleTree workContext ''/work/link-in/ok.txt'' = Some (Inr ())"
  by code_simp

lemma link_in_real:
  "TrimSpace (AllowedRoot workContext) \<noteq> '''' \<and>
   absolute (unixOS ''/work'') exampleTree (TrimSpace (AllowedRoot workContext)) = Inr ''/work'' \<and>
   EvalSymlinks (unixOS ''/work'') exampleTree ''/work'' = Inr ''/work'' \<and>
   absolute (unixOS ''/work'') exampleTree ''/work/link-in/ok.txt'' = Inr ''/work/link-in/ok.txt'' \<and>
   realPathSpec (unixOS ''/work'') exampleTree ''/work/link-in/ok.txt'' = Inr ''/work/nested/ok.txt''"
  by code_simp

lemma link_out_existing:
  "throughLink exampleTree [''work''] ''link-out'' [''outside''] [''secret.txt''] \<and>
   \<not> existingBelow exampleTree [] ([''outside''] @ [''secret.txt'']) < length [''outside''] \<and>
   \<not> prefix [''work''] ([''outside''] @ [''secret.txt'']) \<and>
   rooted ([''work''] @ ''link-out'' # [''secret.txt'']) = ''/work/link-out/secret.txt''"
  by code_simp

lemma link_out_missing:
  "throughLink exampleTree [''work''] ''link-out'' [''outside''] [''new-file.txt''] \<and>
   \<not> existingBelow exampleTree [] ([''outside''] @ [''new-file.txt'']) < length [''outside''] \<and>
   \<not> prefix [''work''] ([''outside''] @ [''new-file.txt'']) \<and>
   rooted ([''work''] @ ''link-out'' # [''new-file.txt'']) = ''/work/link-out/new-file.txt''"
  by code_simp

lemma link_in_missing:
  "throughLink exampleTree [''work''] ''link-in'' [''work'', ''nested''] [''new.txt''] \<and>
   \<not> existingBelow exampleTree [] ([''work'', ''nested''] @ [''new.txt''])
       < length [''work'', ''nested''] \<and>
   prefix [''work''] ([''work'', ''nested''] @ [''new.txt'']) \<and>
   rooted ([''work''] @ ''link-in'' # [''new.txt'']) = ''/work/link-in/new.txt''"
  by code_simp

lemma link_gone:
  "throughLink exampleTree [''work''] ''link-gone'' [''outside'', ''gone.txt''] [] \<and>
   existingBelow exampleTree [] ([''outside'', ''gone.txt''] @ [])
       < length [''outside'', ''gone.txt''] \<and>
   rooted ([''work''] @ ''link-gone'' # []) = ''/work/link-gone''"
  by code_simp

text \<open>
  The symlink tests on the example tree: a file, existing or not, reached through a link
  to a directory inside the root is accepted; a file, existing or not, reached through a
  link that leaves the root is rejected, and so is a dangling link that points out of the
  root.
\<close>

theorem path_confinement_witness:
  "wellBehaved (unixOS ''/work'') exampleTree \<and>
   lexicallyClean (unixOS ''/work'') exampleTree (TrimSpace (AllowedRoot workContext)) \<and>
   lexicallyClean (unixOS ''/work'') exampleTree ''/work/link-in/ok.txt'' \<and>
   ensureSpec (unixOS ''/work'') exampleTree workContext ''/work/link-in/ok.txt'' = Inr () \<and>
   EnsurePathAllowed (unixOS ''/work'') exampleTree workContext ''/work/link-in/ok.txt'' = Some (Inr ()) \<and>
   realPathSpec (unixOS ''/work'') exampleTree ''/work/link-in/ok.txt'' = Inr ''/work/nested/ok.txt'' \<and>
   (\<exists>rel. Rel ''/work'' ''/work/nested/ok.txt'' = Inr rel \<and> rel \<noteq> ''..'' \<and> \<not> prefix ''../'' rel) \<and>
   inside ''/work'' ''/work/nested/ok.txt'' \<and>
   throughLink exampleTree [''work''] ''link-out'' [''outside''] [''secret.txt''] \<and>
   EnsurePathAllowed (unixOS ''/work'') exampleTree workContext ''/work/link-out/secret.txt''
     = Some (Inl OutsideAllowedRoot) \<and>
   throughLink exampleTree [''work''] ''link-out'' [''outside''] [''new-file.txt''] \<and>
   EnsurePathAllowed (unixOS ''/work'') exampleTree workContext ''/work/link-out/new-file.txt''
     = Some (Inl OutsideAllowedRoot) \<and>
   throughLink exampleTree [''work''] ''link-in'' [''work'', ''nested''] [''new.txt''] \<and>
   EnsurePathAllowed (unixOS ''/work'') exampleTree workContext ''/work/link-in/new.txt''
     = Some (Inr ()) \<and>
   throughLink exampleTree [''work''] ''link-gone'' [''outside'', ''gone.txt''] [] \<and>
   EnsurePathAllowed (unixOS ''/work'') exampleTree workContext ''/work/link-gone''
     = Some (Inl (EvalPathFailed (OSError ErrNotExist)))"
proof -
  have wb: "wellBehaved (unixOS ''/work'') exampleTree"
    using work_abs by (rule unixOS_wellBehaved)
  note a = path_confinement [where os = "unixOS ''/work''" and fs = exampleTree
      and ctx = workContext and candidate = "''/work/link-in/ok.txt''"
      and wd = "''/work''" and linkContext = workContext and tree = exampleTree
      and rs = "[''work'']" and l = "''link-out''" and ts = "[''outside'']"
      and rest = "[''secret.txt'']"]
  from a wb work_clean link_in_accepted
  have s: "ensureSpec (unixOS ''/work'') exampleTree workContext ''/work/link-in/ok.txt'' = Inr ()"
    by simp
  from a wb work_clean link_in_real link_in_accepted obtain rel where
    r: "Rel ''/work'' ''/work/nested/ok.txt'' = Inr rel"
       "(rel = ''..'' \<or> prefix ''../'' rel) \<longleftrightarrow> \<not> inside ''/work'' ''/work/nested/ok.txt''"
       "\<not> (rel = ''..'' \<or> prefix ''../'' rel)"
    by blast
  from r have e: "\<exists>rel. Rel ''/work'' ''/work/nested/ok.txt'' = Inr rel \<and> rel \<noteq> ''..'' \<and> \<not> prefix ''../'' rel"
    by blast
  from r have i: "inside ''/work'' ''/work/nested/ok.txt''" by blast
  from a work_abs work_root link_out_existing
  have o1: "EnsurePathAllowed (unixOS ''/work'') exampleTree workContext
              ''/work/link-out/secret.txt'' = Some (Inl OutsideAllowedRoot)"
    by simp
  note b = path_confinement [where os = "unixOS ''/work''" and fs = exampleTree
      and ctx = workContext and candidate = "''/work/link-in/ok.txt''"
      and wd = "''/work''" and linkContext = workContext and tree = exampleTree
      and rs = "[''work'']" and l = "''link-out''" and ts = "[''outside'']"
      and rest = "[''new-file.txt'']"]
  from b work_abs work_root link_out_missing
  have o2: "EnsurePathAllowed (unixOS ''/work'') exampleTree workContext
              ''/work/link-out/new-file.txt'' = Some (Inl OutsideAllowedRoot)"
    by simp
  note c = path_confinement [where os = "unixOS ''/work''" and fs = exampleTree
      and ctx = workContext and candidate = "''/work/link-in/ok.txt''"
      and wd = "''/work''" and linkContext = workContext and tree = exampleTree
      and rs = "[''work'']" and l = "''link-in''" and ts = "[''work'', ''nested'']"
      and rest = "[''new.txt'']"]
  from c work_abs work_root link_in_missing
  have o3: "EnsurePathAllowed (unixOS ''/work'') exampleTree workContext
              ''/work/link-in/new.txt'' = Some (Inr ())"
    by simp
  note d = path_confinement [where os = "unixOS ''/work''" and fs = exampleTree
      and ctx = workContext and candidate = "''/work/link-in/ok.txt''"
      and wd = "''/work''" and linkContext = workContext and tree = exampleTree
      and rs = "[''work'']" and l = "''link-gone''" and ts = "[''outside'', ''gone.txt'']"
      and rest = "[]"]
  from d work_abs work_root link_gone
  have o4: "EnsurePathAllowed (unixOS ''/work'') exampleTree workContext
              ''/work/link-gone'' = Some (Inl (EvalPathFailed (OSError ErrNotExist)))"
    by simp
  from wb work_clean s link_in_accepted link_in_real e i o1 o2 o3 o4
    link_out_existing link_out_missing link_in_missing link_gone
  show ?thesis by blast
qed

text \<open>
  Claim C1 as stated fails for a link inside the root that points at a location inside
  the root where nothing exists: \<open>Lstat\<close> finds the link itself as the deepest existing
  ancestor, its resolution fails, and the path is rejected.
\<close>

theorem dangling_in_root_symlink_rejected:
  "map_of exampleTree ''/work/link-new'' = Some (Symlink ''/work/nested/new.txt'') \<and>
   map_of exampleTree ''/work/nested/new.txt'' = None \<and>
   inside ''/work'' ''/work/link-new'' \<and>
   inside ''/work'' ''/work/nested/new.txt'' \<and>
   Lstat (unixOS ''/work'') exampleTree ''/work/link-new'' = None \<and>
   EvalSymlinks (unixOS ''/work'') exampleTree ''/work/link-new'' = Inl ErrNotExist \<and>
   EnsurePathAllowed (unixOS ''/work'') exampleTree workContext ''/work/link-new''
     = Some (Inl (EvalPathFailed (OSError ErrNotExist)))"
  by code_simp

text \<open>
  Outside the amended claim: a candidate that is not lexically clean. \<open>filepath.Abs\<close>
  removes \<open>link-out/..\<close> before any link is resolved, so the check looks at a path
  inside the root and accepts, whereas the candidate itself resolves to a file outside
  the root, which is what \<open>ensureSpec\<close> rejects and what \<open>ReadFile\<close> opens. \<open>ResolvePath\<close>
  hands such an absolute path on as it is.
\<close>

lemma cleaning_precedes_resolution:
  "\<not> lexicallyClean (unixOS ''/work'') exampleTree ''/work/link-out/../outside/secret.txt'' \<and>
   Abs (unixOS ''/work'') exampleTree ''/work/link-out/../outside/secret.txt''
     = Inr ''/work/outside/secret.txt'' \<and>
   EvalSymlinks (unixOS ''/work'') exampleTree ''/work/link-out/../outside/secret.txt''
     = Inr ''/outside/secret.txt'' \<and>
   ensureSpec (unixOS ''/work'') exampleTree workContext ''/work/link-out/../outside/secret.txt''
     = Inl OutsideAllowedRoot \<and>
   EnsurePathAllowed (unixOS ''/work'') exampleTree workContext
     ''/work/link-out/../outside/secret.txt'' = Some (Inr ()) \<and>
   ResolvePath workContext ''/work/link-out/../outside/secret.txt''
     = ''/work/link-out/../outside/secret.txt'' \<and>
   ReadFile (unixOS ''/work'') exampleTree ''/work/link-out/../outside/secret.txt''
     = Inr ''secret''"
  by code_simp

section \<open>The command policy\<close>

lemma compileAll_isl: "isl (compileAll lib parts) \<longleftrightarrow> list_ex (\<lambda>part. isl (Compile lib part)) parts"
  by (induction parts) (auto split: sum.splits)

lemma malformed_iff: "malformed lib raw \<longleftrightarrow> isl (compilePolicyPatterns lib raw)"
  by (simp add: malformed_def policyParts_def compilePolicyPatterns_def compileAll_isl)

lemma compileAll_length: "compileAll lib parts = Inr ps \<Longrightarrow> length ps = length parts"
  by (induction parts arbitrary: ps) (auto split: sum.splits)

text \<open>
  Claim C9. For every command, every compiled blocklist and every value of the two lists:
  a command that matches the blocklist is rejected, whatever the lists hold; otherwise the
  denylist is compiled and matched first, and a match blocks the command even where the
  allowlist would admit it; a non-empty allowlist blocks a command that matches none of
  its patterns; a malformed pattern in either list always yields an error (the
  invalid-list error as soon as the check reaches that list); and in the remaining case
  the command is admitted.
\<close>

theorem command_policy_order:
  "(list_ex (\<lambda>p. MatchString lib p command) blocked \<longrightarrow>
      validateCommandPolicy lib blocked denylist allowlist command = Some BlockedByPolicy) \<and>
   (\<not> list_ex (\<lambda>p. MatchString lib p command) blocked \<and>
    compilePolicyPatterns lib denylist = Inr ds \<and> list_ex (\<lambda>p. MatchString lib p command) ds \<longrightarrow>
      validateCommandPolicy lib blocked denylist allowlist command = Some BlockedByDenylist) \<and>
   (\<not> list_ex (\<lambda>p. MatchString lib p command) blocked \<and>
    compilePolicyPatterns lib denylist = Inr ds \<and> \<not> list_ex (\<lambda>p. MatchString lib p command) ds \<and>
    compilePolicyPatterns lib allowlist = Inr as \<and> as \<noteq> [] \<and>
    \<not> list_ex (\<lambda>p. MatchString lib p command) as \<longrightarrow>
      validateCommandPolicy lib blocked denylist allowlist command = Some BlockedByAllowlist) \<and>
   (compilePolicyPatterns lib allowlist = Inr as \<and> as \<noteq> [] \<and>
    \<not> list_ex (\<lambda>p. MatchString lib p command) as \<longrightarrow>
      validateCommandPolicy lib blocked denylist allowlist command \<noteq> None) \<and>
   (malformed lib denylist \<or> malformed lib allowlist \<longrightarrow>
      validateCommandPolicy lib blocked denylist allowlist command \<noteq> None) \<and>
   (\<not> list_ex (\<lambda>p. MatchString lib p command) blocked \<and> malformed lib denylist \<longrightarrow>
      (\<exists>e. validateCommandPolicy lib blocked denylist allowlist command =
             Some (InvalidDenylist e))) \<and>
   (\<not> list_ex (\<lambda>p. MatchString lib p command) blocked \<and>
    compilePolicyPatterns lib denylist = Inr ds \<and> \<not> list_ex (\<lambda>p. MatchString lib p command) ds \<and>
    malformed lib allowlist \<longrightarrow>
      (\<exists>e. validateCommandPolicy lib blocked denylist allowlist command =
             Some (InvalidAllowlist e))) \<and>
   (\<not> list_ex (\<lambda>p. MatchString lib p command) blocked \<and>
    compilePolicyPatterns lib denylist = Inr ds \<and> \<not> list_ex (\<lambda>p. MatchString lib p command) ds \<and>
    compilePolicyPatterns lib allowlist = Inr as \<and>
    (as = [] \<or> list_ex (\<lambda>p. MatchString lib p command) as) \<longrightarrow>
      validateCommandPolicy lib blocked denylist allowlist command = None)"
  by (auto simp: validateCommandPolicy_def malformed_iff split: sum.splits)

text \<open>
  One command for each case, with a blocklist of one pattern and literal patterns.
\<close>

theorem command_policy_witness:
  "validateCommandPolicy literalLib [''shutdown''] ''rm'' ''echo'' ''shutdown now'' =
     Some BlockedByPolicy \<and>
   validateCommandPolicy literalLib [''shutdown''] ''rm'' ''echo'' ''rm echo'' =
     Some BlockedByDenylist \<and>
   validateCommandPolicy literalLib [''shutdown''] ''rm'' ''echo'' ''pwd'' =
     Some BlockedByAllowlist \<and>
   validateCommandPolicy literalLib [''shutdown''] ''rm,(a'' ''echo'' ''echo hi'' =
     Some (InvalidDenylist (''(a'', ''missing closing )'')) \<and>
   validateCommandPolicy literalLib [''shutdown''] ''rm'' ''(a'' ''pwd'' =
     Some (InvalidAllowlist (''(a'', ''missing closing )'')) \<and>
   validateCommandPolicy literalLib [''shutdown''] ''rm'' ''echo'' ''echo hi'' = None"
proof -
  have deny: "compilePolicyPatterns literalLib ''rm'' = Inr [''rm'']" by code_simp
  have allow: "compilePolicyPatterns literalLib ''echo'' = Inr [''echo'']" by code_simp
  have bad: "malformed literalLib ''rm,(a''" "malformed literalLib ''(a''" by code_simp+
  have m1: "list_ex (\<lambda>p. MatchString literalLib p ''shutdown now'') [''shutdown'']" by code_simp
  have m2: "\<not> list_ex (\<lambda>p. MatchString literalLib p ''rm echo'') [''shutdown'']"
    "list_ex (\<lambda>p. MatchString literalLib p ''rm echo'') [''rm'']" by code_simp+
  have m3: "\<not> list_ex (\<lambda>p. MatchString literalLib p ''pwd'') [''shutdown'']"
    "\<not> list_ex (\<lambda>p. MatchString literalLib p ''pwd'') [''rm'']"
    "\<not> list_ex (\<lambda>p. MatchString literalLib p ''pwd'') [''echo'']" by code_simp+
  have m4: "\<not> list_ex (\<lambda>p. MatchString literalLib p ''echo hi'') [''shutdown'']"
    "\<not> list_ex (\<lambda>p. MatchString literalLib p ''echo hi'') [''rm'']"
    "list_ex (\<lambda>p. MatchString literalLib p ''echo hi'') [''echo'']" by code_simp+
  have v4: "validateCommandPolicy literalLib [''shutdown''] ''rm,(a'' ''echo'' ''echo hi'' =
     Some (InvalidDenylist (''(a'', ''missing closing )''))" by code_simp
  have v5: "validateCommandPolicy literalLib [''shutdown''] ''rm'' ''(a'' ''pwd'' =
     Some (InvalidAllowlist (''(a'', ''missing closing )''))" by code_simp
  note t = command_policy_order [where lib = literalLib and blocked = "[''shutdown'']"]
  from t [where command = "''shutdown now''" and denylist = "''rm''" and allowlist = "''echo''"] m1
  have 1: "validateCommandPolicy literalLib [''shutdown''] ''rm'' ''echo'' ''shutdown now'' =
     Some BlockedByPolicy" by blast
  from t [where command = "''rm echo''" and denylist = "''rm''" and allowlist = "''echo''"
      and ds = "[''rm'']"] m2 deny
  have 2: "validateCommandPolicy literalLib [''shutdown''] ''rm'' ''echo'' ''rm echo'' =
     Some BlockedByDenylist" by blast
  from t [where command = "''pwd''" and denylist = "''rm''" and allowlist = "''echo''"
      and ds = "[''rm'']" and as = "[''echo'']"] m3 deny allow
  have 3: "validateCommandPolicy literalLib [''shutdown''] ''rm'' ''echo'' ''pwd'' =
     Some BlockedByAllowlist" by blast
  from t [where command = "''echo hi''" and denylist = "''rm,(a''" and allowlist = "''echo''"] bad m4
  have 4: "\<exists>e. validateCommandPolicy literalLib [''shutdown''] ''rm,(a'' ''echo'' ''echo hi'' =
     Some (InvalidDenylist e)" by blast
  from t [where command = "''pwd''" and denylist = "''rm''" and allowlist = "''(a''"
      and ds = "[''rm'']"] bad m3 deny
  have 5: "\<exists>e. validateCommandPolicy literalLib [''shutdown''] ''rm'' ''(a'' ''pwd'' =
     Some (InvalidAllowlist e)" by blast
  from t [where command = "''echo hi''" and denylist = "''rm''" and allowlist = "''echo''"
      and ds = "[''rm'']" and as = "[''echo'']"] m4 deny allow
  have 6: "validateCommandPolicy literalLib [''shutdown''] ''rm'' ''echo'' ''echo hi'' = None"
    by blast
  from 1 2 3 4 5 6 v4 v5 show ?thesis by simp
qed

end
